theory Spec2Isabelle
  imports Complex_Main "HOL-Library.Multiset" "HOL-Library.Sublist"
begin

section \<open>Data model of the content script\<close>

text \<open>
  The content script keeps its state in module-level variables: the message sequence
  \<^verbatim>\<open>messages\<close>, the list \<^verbatim>\<open>favorites\<close>, timer handles and flags. Message objects are
  JavaScript objects, shared by reference, and the detection pass assigns to a field of
  some of them (\<^verbatim>\<open>msg.order = ...\<close>). They are therefore kept in an explicit store: an
  address stands for the identity of an object, the store maps it to the object's fields,
  and the arrays of the source are lists of addresses.

  Host elements are DOM nodes; a node is identified by a number, and the part of the
  document the code reads is a record of functions on nodes.
\<close>

type_synonym node = nat
type_synonym addr = nat

datatype role = User | Assistant

text \<open>
  A message as the adapters build it (\<^verbatim>\<open>{id, role, content, fullContent, element,
  timestamp, order}\<close>, Grok adds \<^verbatim>\<open>originalId\<close>). A field that may be \<^verbatim>\<open>undefined\<close> or
  \<^verbatim>\<open>null\<close> is an option. The strings \<^verbatim>\<open>content\<close> and \<^verbatim>\<open>fullContent\<close> are only read
  through \<^verbatim>\<open>fullContent || content || ''\<close>, where an absent field and the empty string
  behave alike, so an absent string is the empty string here; likewise an absent
  \<^verbatim>\<open>timestamp\<close> is \<open>0\<close> (\<^verbatim>\<open>a.timestamp || 0\<close>). Strings are ASCII.
\<close>

record message =
  msg_id :: string
  role :: role
  content :: string
  fullContent :: string
  element :: "node option"
  timestamp :: int
  order :: "int option"
  originalId :: "string option"

text \<open>
  The host document as the engine reads it: \<^verbatim>\<open>parentElement\<close>, the document order used by
  \<^verbatim>\<open>compareDocumentPosition\<close> (as an index in tree order), \<^verbatim>\<open>offsetTop\<close> and
  \<^verbatim>\<open>isConnected\<close>.
\<close>

record dom =
  parentElement :: "node \<Rightarrow> node option"
  docIndex :: "node \<Rightarrow> nat"
  offsetTop :: "node \<Rightarrow> int"
  isConnected :: "node \<Rightarrow> bool"

text \<open>
  The engine's part of the global state: the object store, the array \<^verbatim>\<open>messages\<close>, and
  the number of \<^verbatim>\<open>console.error\<close> calls made so far.
\<close>

record state =
  heap :: "addr \<Rightarrow> message"
  messages :: "addr list"
  console :: nat

definition sequence :: "state \<Rightarrow> message list" where
  "sequence st = map (heap st) (messages st)"

datatype error = AdapterFailure | SyntaxError

section \<open>Strings\<close>

definition isWhiteSpace :: "char \<Rightarrow> bool" where
  "isWhiteSpace c \<longleftrightarrow> c \<in> set [CHR '' '', CHR 0x09, CHR 0x0A, CHR 0x0B, CHR 0x0C, CHR 0x0D]"

definition trim :: "string \<Rightarrow> string" where
  "trim s = rev (dropWhile isWhiteSpace (rev (dropWhile isWhiteSpace s)))"

definition lowerChar :: "char \<Rightarrow> char" where
  "lowerChar c =
     (case map_of (zip ''ABCDEFGHIJKLMNOPQRSTUVWXYZ'' ''abcdefghijklmnopqrstuvwxyz'') c of
        Some l \<Rightarrow> l
      | None \<Rightarrow> c)"

definition toLowerCase :: "string \<Rightarrow> string" where
  "toLowerCase s = map lowerChar s"

text \<open>\<^verbatim>\<open>(m.fullContent || m.content || '').trim().toLowerCase()\<close>\<close>

definition normalizedContent :: "message \<Rightarrow> string" where
  "normalizedContent m =
     toLowerCase (trim (if fullContent m \<noteq> [] then fullContent m else content m))"

section \<open>The detection pass\<close>

subsection \<open>Near-duplicate suppression\<close>

text \<open>\<^verbatim>\<open>existingMsg.element && newMsg.element && existingMsg.element === newMsg.element\<close>\<close>

definition sameElement :: "message \<Rightarrow> message \<Rightarrow> bool" where
  "sameElement existingMsg newMsg =
     (case (element existingMsg, element newMsg) of
        (Some e, Some n) \<Rightarrow> e = n
      | _ \<Rightarrow> False)"

text \<open>
  The walk up from the new element:
  \<^verbatim>\<open>while (current && current !== existingMsg.element && distance < 5)
    { current = current.parentElement; distance++; }\<close>
  It returns the final \<^verbatim>\<open>current\<close> and \<^verbatim>\<open>distance\<close>.
\<close>

function ancestorWalk :: "dom \<Rightarrow> node \<Rightarrow> node option \<Rightarrow> nat \<Rightarrow> node option \<times> nat" where
  "ancestorWalk d target current distance =
     (case current of
        None \<Rightarrow> (None, distance)
      | Some c \<Rightarrow>
          if c \<noteq> target \<and> distance < 5
          then ancestorWalk d target (parentElement d c) (Suc distance)
          else (Some c, distance))"
  by pat_completeness auto
termination
  by (relation "measure (\<lambda>(d, target, current, distance). 5 - distance)") auto

text \<open>\<^verbatim>\<open>distance < 3 && current === existingMsg.element\<close> after the walk.\<close>

definition closeInDom :: "dom \<Rightarrow> node \<Rightarrow> node \<Rightarrow> bool" where
  "closeInDom d existingEl newEl =
     (case ancestorWalk d existingEl (Some newEl) 0 of
        (current, distance) \<Rightarrow> distance < 3 \<and> current = Some existingEl)"

text \<open>
  The content test of check 3: equal, or both longer than 10, lengths less than 5 apart
  and the first 50 characters equal.
\<close>

definition nearIdentical :: "string \<Rightarrow> string \<Rightarrow> bool" where
  "nearIdentical existingContent newContent \<longleftrightarrow>
     existingContent = newContent \<or>
     (length existingContent > 10 \<and> length newContent > 10 \<and>
      \<bar>int (length existingContent) - int (length newContent)\<bar> < 5 \<and>
      take (min 50 (length existingContent)) existingContent =
        take (min 50 (length newContent)) newContent)"

text \<open>
  One iteration of the loop over the existing messages inside the filter callback:
  \<open>True\<close> when the iteration executes \<^verbatim>\<open>return false\<close> (the candidate is dropped),
  \<open>False\<close> when it falls through or executes \<^verbatim>\<open>continue\<close>.
\<close>

definition returnsFalse :: "dom \<Rightarrow> message \<Rightarrow> message \<Rightarrow> bool" where
  "returnsFalse d existingMsg newMsg =
     (if role existingMsg \<noteq> role newMsg then False
      else if order existingMsg \<noteq> None \<and> order newMsg \<noteq> None \<and>
              order existingMsg = order newMsg \<and>
              (sameElement existingMsg newMsg \<or>
               (normalizedContent existingMsg \<noteq> [] \<and> normalizedContent newMsg \<noteq> [] \<and>
                normalizedContent existingMsg = normalizedContent newMsg))
      then True
      else if sameElement existingMsg newMsg then True
      else if normalizedContent existingMsg = [] \<or> normalizedContent newMsg = [] then False
      else if nearIdentical (normalizedContent existingMsg) (normalizedContent newMsg)
      then (case (element existingMsg, element newMsg) of
              (Some e, Some n) \<Rightarrow> closeInDom d e n
            | _ \<Rightarrow> False)
      else False)"

text \<open>The filter callback: the loop over \<^verbatim>\<open>messages\<close>, then \<^verbatim>\<open>return true\<close>.\<close>

fun keepCandidate :: "dom \<Rightarrow> message list \<Rightarrow> message \<Rightarrow> bool" where
  "keepCandidate d [] newMsg = True"
| "keepCandidate d (existingMsg # rest) newMsg =
     (if returnsFalse d existingMsg newMsg then False else keepCandidate d rest newMsg)"

subsection \<open>Sorting\<close>

datatype position = Same | Following | Preceding

text \<open>
  \<^verbatim>\<open>a.compareDocumentPosition(b)\<close>, reduced to the two bits the comparator tests:
  \<open>Following\<close> when \<open>b\<close> follows \<open>a\<close> in document order, \<open>Preceding\<close> when it precedes it,
  \<open>Same\<close> (no bit set) for the node itself.
\<close>

definition compareDocumentPosition :: "dom \<Rightarrow> node \<Rightarrow> node \<Rightarrow> position" where
  "compareDocumentPosition d a b =
     (if a = b then Same
      else if docIndex d a < docIndex d b then Following
      else Preceding)"

text \<open>
  The comparator passed to \<^verbatim>\<open>messages.sort\<close>; only its sign matters. The elements are
  nodes, for which \<^verbatim>\<open>compareDocumentPosition\<close> does not throw and \<^verbatim>\<open>offsetTop\<close> is a number.
\<close>

definition compareMessages :: "dom \<Rightarrow> message \<Rightarrow> message \<Rightarrow> int" where
  "compareMessages d a b =
     (case (order a, order b) of
        (Some x, Some y) \<Rightarrow> x - y
      | (Some x, None) \<Rightarrow> - 1
      | (None, Some y) \<Rightarrow> 1
      | (None, None) \<Rightarrow>
          (case (element a, element b) of
             (Some ea, Some eb) \<Rightarrow>
               (case compareDocumentPosition d ea eb of
                  Following \<Rightarrow> - 1
                | Preceding \<Rightarrow> 1
                | Same \<Rightarrow>
                    if offsetTop d ea \<noteq> offsetTop d eb
                    then offsetTop d ea - offsetTop d eb
                    else timestamp a - timestamp b)
           | _ \<Rightarrow> timestamp a - timestamp b))"

text \<open>
  \<^verbatim>\<open>Array.prototype.sort\<close> is a stable sort. For a comparator that orders the array
  consistently its result is the one stable sorted arrangement, which insertion from the
  right computes; that is the model of \<^verbatim>\<open>sort\<close> here. Where the comparator is not
  consistent (it can be so only among messages without \<^verbatim>\<open>order\<close>, when some of them
  have no element) the language leaves the arrangement to the implementation, and the
  model still inserts.
\<close>

fun insertSorted :: "('a \<Rightarrow> 'a \<Rightarrow> int) \<Rightarrow> 'a \<Rightarrow> 'a list \<Rightarrow> 'a list" where
  "insertSorted cmp x [] = [x]"
| "insertSorted cmp x (y # ys) =
     (if cmp x y \<le> 0 then x # y # ys else y # insertSorted cmp x ys)"

definition sortBy :: "('a \<Rightarrow> 'a \<Rightarrow> int) \<Rightarrow> 'a list \<Rightarrow> 'a list" where
  "sortBy cmp xs = foldr (insertSorted cmp) xs []"

subsection \<open>The pass\<close>

text \<open>\<^verbatim>\<open>newMessages.filter(m => !existingIds.has(m.id))\<close>\<close>

definition existingIds :: "state \<Rightarrow> string set" where
  "existingIds st = set (map (\<lambda>a. msg_id (heap st a)) (messages st))"

definition uniqueById :: "state \<Rightarrow> addr list \<Rightarrow> addr list" where
  "uniqueById st newMessages = filter (\<lambda>a. msg_id (heap st a) \<notin> existingIds st) newMessages"

text \<open>
  \<^verbatim>\<open>messages.length > 0 ? Math.max(...messages.map(m => m.order !== undefined ? m.order : -1)) : -1\<close>
\<close>

definition maxExistingOrder :: "state \<Rightarrow> int" where
  "maxExistingOrder st =
     (if messages st = [] then - 1
      else Max (set (map (\<lambda>a. case order (heap st a) of Some k \<Rightarrow> k | None \<Rightarrow> - 1)
                         (messages st))))"

text \<open>
  \<^verbatim>\<open>uniqueNewMessages.forEach((msg, index) => { msg.order = maxExistingOrder + 1 + index; })\<close>:
  the assignment goes through the reference, so it is an update of the store.
\<close>

fun renumber :: "int \<Rightarrow> nat \<Rightarrow> addr list \<Rightarrow> (addr \<Rightarrow> message) \<Rightarrow> (addr \<Rightarrow> message)" where
  "renumber base index [] h = h"
| "renumber base index (a # rest) h =
     renumber base (Suc index) rest (h(a := (h a)\<lparr>order := Some (base + 1 + int index)\<rparr>))"

definition renumbered :: "string \<Rightarrow> state \<Rightarrow> addr list \<Rightarrow> (addr \<Rightarrow> message)" where
  "renumbered name st uniqueNewMessages =
     (if name = ''DeepSeek'' \<and> uniqueNewMessages \<noteq> []
      then renumber (maxExistingOrder st) 0 uniqueNewMessages (heap st)
      else heap st)"

text \<open>The candidates that survive both filters, in the adapter's order.\<close>

definition accepted :: "string \<Rightarrow> dom \<Rightarrow> state \<Rightarrow> addr list \<Rightarrow> addr list" where
  "accepted name d st newMessages =
     (let uniqueNewMessages = uniqueById st newMessages;
          h = renumbered name st uniqueNewMessages
      in filter (\<lambda>a. keepCandidate d (map h (messages st)) (h a)) uniqueNewMessages)"

text \<open>
  The body of the \<^verbatim>\<open>try\<close> block of \<^verbatim>\<open>detectMessages\<close> once the adapter has returned
  \<^verbatim>\<open>newMessages\<close>.
\<close>

definition mergeNewMessages :: "string \<Rightarrow> dom \<Rightarrow> addr list \<Rightarrow> state \<Rightarrow> state" where
  "mergeNewMessages name d newMessages st =
     (if newMessages = [] then st
      else
        let uniqueNewMessages = uniqueById st newMessages;
            h = renumbered name st uniqueNewMessages;
            kept = accepted name d st newMessages
        in if kept = [] then st\<lparr>heap := h\<rparr>
           else st\<lparr>heap := h,
                   messages := sortBy (\<lambda>a b. compareMessages d (h a) (h b)) (messages st @ kept)\<rparr>)"

text \<open>
  \<^verbatim>\<open>detectMessages\<close>. The active platform is \<open>None\<close> when \<^verbatim>\<open>currentPlatform\<close> is null or
  has no \<^verbatim>\<open>detectMessages\<close>; otherwise it carries the platform's name. The second argument
  is the outcome of the call \<^verbatim>\<open>currentPlatform.detectMessages()\<close>: an exception or
  malformed result (\<open>Inl\<close>), or the array of candidates. An exception is caught by the
  \<^verbatim>\<open>catch\<close> clause, which logs it with \<^verbatim>\<open>console.error\<close>.
\<close>

definition detectMessages :: "string option \<Rightarrow> dom \<Rightarrow> error + addr list \<Rightarrow> state \<Rightarrow> state" where
  "detectMessages platform d adapterResult st =
     (case platform of
        None \<Rightarrow> st
      | Some name \<Rightarrow>
          (case adapterResult of
             Inl e \<Rightarrow> st\<lparr>console := console st + 1\<rparr>
           | Inr newMessages \<Rightarrow> mergeNewMessages name d newMessages st))"

section \<open>The change-notification scheduler\<close>

text \<open>
  \<^verbatim>\<open>observeDOM\<close> and \<^verbatim>\<open>checkUrlChange\<close> schedule their work with \<^verbatim>\<open>setTimeout\<close> and
  \<^verbatim>\<open>setInterval\<close>. The browser runs one callback at a time, so the scheduler is a
  deterministic machine: a clock in milliseconds, the pending timers, the handles kept in
  the variables \<^verbatim>\<open>observerTimeout\<close>, \<^verbatim>\<open>streamingTimeout\<close>, \<^verbatim>\<open>window.hopperDeepSeekInterval\<close>
  and \<^verbatim>\<open>window.hopperQwenInterval\<close>, whether a \<^verbatim>\<open>MutationObserver\<close> is connected, the flag
  \<^verbatim>\<open>isResetting\<close> and \<^verbatim>\<open>currentUrl\<close>. The field \<open>passes\<close> records the times at which
  \<^verbatim>\<open>detectMessages\<close> was called; the code does not have it.

  The closures passed to \<^verbatim>\<open>setTimeout\<close> are named: \<open>Debounced\<close> is the callback of the
  debounce timer, \<open>StreamingRecheck\<close> the callback that asks \<^verbatim>\<open>isStreaming\<close> again,
  \<open>Detect\<close> is \<^verbatim>\<open>() => detectMessages()\<close>, \<open>QwenBurst\<close> the Qwen callback that detects
  and schedules a follow-up, \<open>ResetDone\<close> the callback of \<^verbatim>\<open>checkUrlChange\<close>.

  The world is what the scheduler cannot decide: the active adapter with its optional
  methods, and, as functions of the time, what the adapter's \<^verbatim>\<open>detectMessages\<close> and
  \<^verbatim>\<open>isStreaming\<close> return, the document and \<^verbatim>\<open>window.location.href\<close>.
\<close>

datatype callback = Debounced | StreamingRecheck | Detect | QwenBurst | ResetDone

record timer =
  handle :: nat
  due :: nat
  callback :: callback
  period :: "nat option"

record world =
  platformName :: string
  adapterDetect :: "nat \<Rightarrow> error + addr list"
  isStreamingAt :: "(nat \<Rightarrow> bool) option"
  getDebounceTime :: "nat option"
  getStreamingWaitTime :: "nat option"
  normalizeUrl :: "string \<Rightarrow> string"
  documentAt :: "nat \<Rightarrow> dom"
  locationAt :: "nat \<Rightarrow> string"

record sched =
  engine :: state
  now :: nat
  timers :: "timer list"
  nextHandle :: nat
  observerTimeout :: "nat option"
  streamingTimeout :: "nat option"
  hopperDeepSeekInterval :: "nat option"
  hopperQwenInterval :: "nat option"
  observer :: bool
  isResetting :: bool
  currentUrl :: string
  passes :: "nat list"

text \<open>
  \<^verbatim>\<open>setTimeout\<close> and \<^verbatim>\<open>setInterval\<close> return a new handle; \<^verbatim>\<open>clearTimeout\<close> and
  \<^verbatim>\<open>clearInterval\<close> remove the timer with that handle, if it is pending.
\<close>

definition setTimeout :: "callback \<Rightarrow> nat \<Rightarrow> sched \<Rightarrow> nat \<times> sched" where
  "setTimeout cb delay s =
     (nextHandle s,
      s\<lparr>timers := timers s @ [\<lparr>handle = nextHandle s, due = now s + delay, callback = cb,
                                period = None\<rparr>],
        nextHandle := nextHandle s + 1\<rparr>)"

definition setInterval :: "callback \<Rightarrow> nat \<Rightarrow> sched \<Rightarrow> nat \<times> sched" where
  "setInterval cb delay s =
     (nextHandle s,
      s\<lparr>timers := timers s @ [\<lparr>handle = nextHandle s, due = now s + delay, callback = cb,
                                period = Some delay\<rparr>],
        nextHandle := nextHandle s + 1\<rparr>)"

definition clearTimeout :: "nat option \<Rightarrow> sched \<Rightarrow> sched" where
  "clearTimeout h s = s\<lparr>timers := filter (\<lambda>t. Some (handle t) \<noteq> h) (timers s)\<rparr>"

text \<open>A call of \<^verbatim>\<open>detectMessages()\<close> at the current time.\<close>

definition runDetect :: "world \<Rightarrow> sched \<Rightarrow> sched" where
  "runDetect w s =
     s\<lparr>engine := detectMessages (Some (platformName w)) (documentAt w (now s))
                    (adapterDetect w (now s)) (engine s),
       passes := passes s @ [now s]\<rparr>"

definition callIsStreaming :: "world \<Rightarrow> sched \<Rightarrow> bool" where
  "callIsStreaming w s = (case isStreamingAt w of Some f \<Rightarrow> f (now s) | None \<Rightarrow> False)"

definition streamingWait :: "world \<Rightarrow> nat" where
  "streamingWait w = (case getStreamingWaitTime w of Some t \<Rightarrow> t | None \<Rightarrow> 2000)"

text \<open>
  The callback given to \<^verbatim>\<open>setTimeout\<close> when the platform is streaming: it asks once
  more, and if the answer is still yes schedules an unconditional detection.
\<close>

definition streamingRecheck :: "world \<Rightarrow> sched \<Rightarrow> sched" where
  "streamingRecheck w s =
     (let stillStreaming = callIsStreaming w s
      in if \<not> stillStreaming then runDetect w s
         else (case setTimeout Detect (streamingWait w) s of
                 (h, s') \<Rightarrow> s'\<lparr>streamingTimeout := Some h\<rparr>))"

text \<open>The callback of the debounce timer.\<close>

definition debouncedCallback :: "world \<Rightarrow> sched \<Rightarrow> sched" where
  "debouncedCallback w s =
     (let hasExistingMessages = (messages (engine s) \<noteq> []);
          isStreaming = (if \<not> hasExistingMessages \<and> isStreamingAt w \<noteq> None
                         then callIsStreaming w s else False)
      in if isStreaming
         then (case setTimeout StreamingRecheck (streamingWait w) s of
                 (h, s') \<Rightarrow> s'\<lparr>streamingTimeout := Some h\<rparr>)
         else
           let beforeCount = length (messages (engine s));
               s1 = runDetect w s;
               afterCount = length (messages (engine s1));
               s2 = (if \<not> hasExistingMessages \<and> afterCount > beforeCount \<and>
                        getStreamingWaitTime w \<noteq> None
                     then (case setTimeout Detect (streamingWait w) s1 of
                             (h, s') \<Rightarrow> s'\<lparr>streamingTimeout := Some h\<rparr>)
                     else s1)
           in if platformName w = ''Qwen'' \<and> (afterCount > beforeCount \<or> hasExistingMessages)
              then snd (setTimeout Detect (case getStreamingWaitTime w of Some t \<Rightarrow> t | None \<Rightarrow> 1500) s2)
              else s2)"

text \<open>
  The callback of the \<^verbatim>\<open>MutationObserver\<close>. The flag \<open>messageNodes\<close> stands for what the
  callback reads off the mutation records: relevant changes that add message nodes
  (DeepSeek's \<^verbatim>\<open>hasMessageNodes\<close>, Qwen's \<^verbatim>\<open>hasQwenMessages\<close>).
\<close>

definition mutationCallback :: "world \<Rightarrow> bool \<Rightarrow> sched \<Rightarrow> sched" where
  "mutationCallback w messageNodes s =
     (let s1 = clearTimeout (observerTimeout s) s
      in if platformName w = ''DeepSeek'' \<and> messageNodes
         then (case setTimeout Detect 200 (clearTimeout (observerTimeout s1) s1) of
                 (h, s2) \<Rightarrow> s2\<lparr>observerTimeout := Some h\<rparr>)
         else if platformName w = ''Qwen'' \<and> messageNodes
         then (case setTimeout QwenBurst 200 (clearTimeout (observerTimeout s1) s1) of
                 (h, s2) \<Rightarrow> s2\<lparr>observerTimeout := Some h\<rparr>)
         else
           let s2 = (if streamingTimeout s1 \<noteq> None then clearTimeout (streamingTimeout s1) s1
                     else s1)
           in (case setTimeout Debounced (case getDebounceTime w of Some t \<Rightarrow> t | None \<Rightarrow> 300) s2 of
                 (h, s3) \<Rightarrow> s3\<lparr>observerTimeout := Some h\<rparr>))"

definition clearDeepSeekInterval :: "sched \<Rightarrow> sched" where
  "clearDeepSeekInterval s =
     (if hopperDeepSeekInterval s \<noteq> None
      then (clearTimeout (hopperDeepSeekInterval s) s)\<lparr>hopperDeepSeekInterval := None\<rparr>
      else s)"

definition observeDOM :: "world \<Rightarrow> sched \<Rightarrow> sched" where
  "observeDOM w s =
     (let s1 = s\<lparr>observer := True\<rparr>;
          s2 = (if platformName w = ''DeepSeek''
                then (case setInterval Detect 1500 (clearDeepSeekInterval s1) of
                        (h, s') \<Rightarrow> s'\<lparr>hopperDeepSeekInterval := Some h\<rparr>)
                else clearDeepSeekInterval s1)
      in if platformName w = ''Qwen''
         then (case setInterval Detect 1200
                      (if hopperQwenInterval s2 \<noteq> None
                       then clearTimeout (hopperQwenInterval s2) s2 else s2) of
                 (h, s') \<Rightarrow> s'\<lparr>hopperQwenInterval := Some h\<rparr>)
         else s2)"

text \<open>\<^verbatim>\<open>checkUrlChange\<close>: the teardown of the conversation context.\<close>

definition checkUrlChange :: "world \<Rightarrow> sched \<Rightarrow> sched" where
  "checkUrlChange w s =
     (let newUrl = locationAt w (now s)
      in if normalizeUrl w (currentUrl s) \<noteq> normalizeUrl w newUrl \<and> \<not> isResetting s
         then
           let s1 = s\<lparr>isResetting := True, engine := (engine s)\<lparr>messages := []\<rparr>,
                      currentUrl := newUrl, observer := False\<rparr>;
               s2 = (if observerTimeout s1 \<noteq> None
                     then (clearTimeout (observerTimeout s1) s1)\<lparr>observerTimeout := None\<rparr>
                     else s1)
           in snd (setTimeout ResetDone 1000 s2)
         else s)"

definition runCallback :: "world \<Rightarrow> callback \<Rightarrow> sched \<Rightarrow> sched" where
  "runCallback w cb s =
     (case cb of
        Debounced \<Rightarrow> debouncedCallback w s
      | StreamingRecheck \<Rightarrow> streamingRecheck w s
      | Detect \<Rightarrow> runDetect w s
      | QwenBurst \<Rightarrow> snd (setTimeout Detect 800 (runDetect w s))
      | ResetDone \<Rightarrow> (observeDOM w (runDetect w s))\<lparr>isResetting := False\<rparr>)"

text \<open>
  The browser fires the pending timer that is due first (the one set first among equals);
  an interval timer is rescheduled, a timeout removed.
\<close>

fun earliest :: "timer list \<Rightarrow> timer option" where
  "earliest [] = None"
| "earliest (t # ts) =
     (case earliest ts of
        None \<Rightarrow> Some t
      | Some u \<Rightarrow> if due t \<le> due u then Some t else Some u)"

definition fireNext :: "world \<Rightarrow> sched \<Rightarrow> sched option" where
  "fireNext w s =
     (case earliest (timers s) of
        None \<Rightarrow> None
      | Some t \<Rightarrow>
          Some (runCallback w (callback t)
                  (s\<lparr>now := max (now s) (due t),
                     timers := (case period t of
                                  None \<Rightarrow> filter (\<lambda>u. handle u \<noteq> handle t) (timers s)
                                | Some p \<Rightarrow> map (\<lambda>u. if handle u = handle t
                                                        then u\<lparr>due := due u + p\<rparr> else u)
                                                (timers s))\<rparr>)))"

text \<open>
  A run is a list of events: a mutation of the watched subtree or a call of
  \<^verbatim>\<open>checkUrlChange\<close> at a given time, or the firing of the next timer. An event at a time
  by which a pending timer would already have fired is refused (\<open>None\<close>).
\<close>

datatype event = Mutate nat bool | Navigate nat | Fire

definition timed :: "nat \<Rightarrow> sched \<Rightarrow> bool" where
  "timed t s \<longleftrightarrow> now s \<le> t \<and> (\<forall>u \<in> set (timers s). t \<le> due u)"

definition step :: "world \<Rightarrow> event \<Rightarrow> sched \<Rightarrow> sched option" where
  "step w ev s =
     (case ev of
        Mutate t messageNodes \<Rightarrow>
          if timed t s
          then Some (if observer s then mutationCallback w messageNodes (s\<lparr>now := t\<rparr>)
                     else s\<lparr>now := t\<rparr>)
          else None
      | Navigate t \<Rightarrow> if timed t s then Some (checkUrlChange w (s\<lparr>now := t\<rparr>)) else None
      | Fire \<Rightarrow> fireNext w s)"

fun run :: "world \<Rightarrow> event list \<Rightarrow> sched \<Rightarrow> sched option" where
  "run w [] s = Some s"
| "run w (ev # evs) s = (case step w ev s of None \<Rightarrow> None | Some s' \<Rightarrow> run w evs s')"


text \<open>What is observed of a scheduler state in the examples.\<close>

definition pending :: "sched \<Rightarrow> (nat \<times> callback) list" where
  "pending s = map (\<lambda>t. (due t, callback t)) (timers s)"

definition summary :: "sched option \<Rightarrow> (nat \<times> addr list \<times> nat list \<times> (nat \<times> callback) list \<times> bool) option" where
  "summary r = map_option (\<lambda>s. (now s, messages (engine s), passes s, pending s, isResetting s)) r"

section \<open>Scroll resolution\<close>

text \<open>
  The queries \<^verbatim>\<open>scrollToMessage\<close>, \<^verbatim>\<open>ensureMessageElement\<close> and \<^verbatim>\<open>toggleFavorite\<close> make on the
  document are fields of the page: \<^verbatim>\<open>getElementById\<close>; the first element of the host
  page with the attribute \<^verbatim>\<open>data-id="id"\<close>; the selector \<^verbatim>\<open>[id*="id"]\<close>; the card
  \<^verbatim>\<open>.hopper-message[data-id="id"]\<close> of the sidebar and its button \<^verbatim>\<open>.hopper-favorite\<close>; and
  for Kimi the lists \<^verbatim>\<open>.chat-content-item\<close>, \<^verbatim>\<open>.paragraph, .markdown-container\<close> and
  \<^verbatim>\<open>.user-content\<close> with \<^verbatim>\<open>textContent\<close> and \<^verbatim>\<open>closest('.chat-content-item')\<close>. The
  sidebar keeps \<^verbatim>\<open>activeSidebarMessageId\<close> and \<^verbatim>\<open>activeSidebarElement\<close>. What an operation
  does to the page is a list of effects: the press and active classes of a sidebar card,
  the press of a favorite button, the scroll to an element and its highlight.
\<close>

record page = dom +
  rejectsSelector :: "string \<Rightarrow> bool"
  getElementById :: "string \<Rightarrow> node option"
  hostDataId :: "string \<Rightarrow> node option"
  queryIdContains :: "string \<Rightarrow> node option"
  sidebarCard :: "string \<Rightarrow> node option"
  favoriteButtonOf :: "node \<Rightarrow> node"
  chatContentItems :: "node list"
  assistantBlocks :: "node list"
  userBlocks :: "node list"
  textContent :: "node \<Rightarrow> string"
  closestItem :: "node \<Rightarrow> node option"

record sidebar =
  activeSidebarMessageId :: "string option"
  activeSidebarElement :: "node option"

datatype effect =
  PressCard node | DeactivateCard node | ActivateCard node | PressFavorite node |
  ScrollTo node | HighlightMessage node

text \<open>
  The selectors are built by pasting the id between double quotes, with no escaping:
  \<^verbatim>\<open>`[data-id="${id}"]`\<close>. An id without a double quote, a backslash or a line break is
  the content of a CSS string, and the selector is well-formed. For another id the
  page tells whether the parser rejects the selector; \<^verbatim>\<open>document.querySelector\<close> then
  throws a \<^verbatim>\<open>SyntaxError\<close>, whatever the document holds.
\<close>

definition plainId :: "string \<Rightarrow> bool" where
  "plainId i \<longleftrightarrow>
     filter (\<lambda>c. c \<in> set [CHR 0x22, CHR 0x5C, CHR 0x0A, CHR 0x0C, CHR 0x0D]) i = []"

definition breaksSelector :: "page \<Rightarrow> string \<Rightarrow> bool" where
  "breaksSelector p i \<longleftrightarrow> \<not> plainId i \<and> rejectsSelector p i"

definition querySelector :: "page \<Rightarrow> (string \<Rightarrow> node option) \<Rightarrow> string \<Rightarrow> error + node option" where
  "querySelector p matching i = (if breaksSelector p i then Inl SyntaxError else Inr (matching i))"

text \<open>
  \<^verbatim>\<open>[data-id="id"]\<close> searches the whole document, and the card of the message in the
  sidebar carries that attribute too: the match is the first in document order of
  the element of the host page and the card.
\<close>

definition queryDataId :: "page \<Rightarrow> string \<Rightarrow> node option" where
  "queryDataId p i =
     (case hostDataId p i of
        None \<Rightarrow> sidebarCard p i
      | Some h \<Rightarrow>
          (case sidebarCard p i of
             None \<Rightarrow> Some h
           | Some c \<Rightarrow> if docIndex p c < docIndex p h then Some c else Some h))"

definition favoriteButton :: "page \<Rightarrow> string \<Rightarrow> node option" where
  "favoriteButton p i = map_option (favoriteButtonOf p) (sidebarCard p i)"

text \<open>
  \<^verbatim>\<open>searchText.split(/\s+/).slice(0, 5).join(' ')\<close>, for a trimmed \<^verbatim>\<open>searchText\<close>.
\<close>

fun splitWords :: "string \<Rightarrow> string \<Rightarrow> string list" where
  "splitWords cur [] = (if cur = [] then [] else [rev cur])"
| "splitWords cur (c # cs) =
     (if isWhiteSpace c
      then (if cur = [] then splitWords [] cs else rev cur # splitWords [] cs)
      else splitWords (c # cur) cs)"

fun joinWords :: "string list \<Rightarrow> string" where
  "joinWords [] = []"
| "joinWords [w] = w"
| "joinWords (w # ws) = w @ '' '' @ joinWords ws"

definition firstWords :: "string \<Rightarrow> string" where
  "firstWords searchText = joinWords (take 5 (splitWords [] searchText))"

definition itemMatches :: "string \<Rightarrow> string \<Rightarrow> bool" where
  "itemMatches searchText text \<longleftrightarrow>
     prefix (firstWords searchText) text \<or> sublist ('' '' @ firstWords searchText) text \<or>
     sublist (take 50 searchText) text"

definition blockMatches :: "string \<Rightarrow> string \<Rightarrow> bool" where
  "blockMatches searchText text \<longleftrightarrow>
     prefix (firstWords searchText) text \<or> sublist ('' '' @ firstWords searchText) text"

text \<open>\<^verbatim>\<open>item.textContent.trim().toLowerCase()\<close>.\<close>

definition textOf :: "page \<Rightarrow> node \<Rightarrow> string" where
  "textOf p n = toLowerCase (trim (textContent p n))"

text \<open>\<^verbatim>\<open>if (msg.originalId) candidate = document.getElementById(msg.originalId)\<close>.\<close>

definition originalIdLookup :: "page \<Rightarrow> message \<Rightarrow> node option" where
  "originalIdLookup p msg =
     (case originalId msg of
        Some oid \<Rightarrow> if oid \<noteq> [] then getElementById p oid else None
      | None \<Rightarrow> None)"

text \<open>
  The search of \<^verbatim>\<open>ensureMessageElement\<close> once the stored element is missing or detached:
  for Kimi with a text, by the first words of the content; otherwise by \<^verbatim>\<open>originalId\<close>
  and then by the two selectors built from the message id.
\<close>

definition requery :: "page \<Rightarrow> string option \<Rightarrow> message \<Rightarrow> string \<Rightarrow> error + node option" where
  "requery p platform msg i =
     (let searchText = normalizedContent msg
      in if platform = Some ''Kimi'' \<and> searchText \<noteq> []
         then
           (case find (\<lambda>item. itemMatches searchText (textOf p item)) (chatContentItems p) of
              Some item \<Rightarrow> Inr (Some item)
            | None \<Rightarrow>
                (case find (\<lambda>block. blockMatches searchText (textOf p block)
                                     \<and> closestItem p block \<noteq> None)
                           (if role msg = Assistant then assistantBlocks p else userBlocks p) of
                   Some block \<Rightarrow> Inr (closestItem p block)
                 | None \<Rightarrow> Inr None))
         else
           (case originalIdLookup p msg of
              Some n \<Rightarrow> Inr (Some n)
            | None \<Rightarrow>
                (case querySelector p (queryDataId p) i of
                   Inl e \<Rightarrow> Inl e
                 | Inr (Some n) \<Rightarrow> Inr (Some n)
                 | Inr None \<Rightarrow> querySelector p (queryIdContains p) i)))"

text \<open>\<^verbatim>\<open>msg.element && msg.element.isConnected\<close>.\<close>

definition storedElement :: "page \<Rightarrow> message \<Rightarrow> node option" where
  "storedElement p msg =
     (case element msg of
        Some el \<Rightarrow> if isConnected p el then Some el else None
      | None \<Rightarrow> None)"

definition ensureMessageElement ::
  "page \<Rightarrow> string option \<Rightarrow> (addr \<Rightarrow> message) \<Rightarrow> addr \<Rightarrow> string \<Rightarrow>
   error + (node option \<times> (addr \<Rightarrow> message))" where
  "ensureMessageElement p platform h a i =
     (case storedElement p (h a) of
        Some el \<Rightarrow> Inr (Some el, h)
      | None \<Rightarrow>
          (case requery p platform (h a) i of
             Inl e \<Rightarrow> Inl e
           | Inr (Some candidate) \<Rightarrow>
               Inr (Some candidate, h(a := (h a)\<lparr>element := Some candidate\<rparr>))
           | Inr None \<Rightarrow> Inr (None, h)))"

text \<open>
  \<^verbatim>\<open>highlightSidebarMessage\<close>: the new sidebar, the effects, and the exception if the
  query of the card throws, which is after the two variables are assigned.
\<close>

definition highlightSidebarMessage ::
  "page \<Rightarrow> string \<Rightarrow> sidebar \<Rightarrow> sidebar \<times> effect list \<times> error option" where
  "highlightSidebarMessage p i ui =
     (if Some i = activeSidebarMessageId ui then (ui, [], None)
      else
        let off = (case activeSidebarElement ui of Some n \<Rightarrow> [DeactivateCard n] | None \<Rightarrow> [])
        in if i = [] then (\<lparr>activeSidebarMessageId = None, activeSidebarElement = None\<rparr>, off, None)
           else (case querySelector p (sidebarCard p) i of
                   Inl e \<Rightarrow>
                     (\<lparr>activeSidebarMessageId = Some i, activeSidebarElement = None\<rparr>, off, Some e)
                 | Inr (Some n) \<Rightarrow>
                     (\<lparr>activeSidebarMessageId = Some i, activeSidebarElement = Some n\<rparr>,
                      off @ [ActivateCard n], None)
                 | Inr None \<Rightarrow>
                     (\<lparr>activeSidebarMessageId = Some i, activeSidebarElement = None\<rparr>, off, None)))"

text \<open>
  \<^verbatim>\<open>scrollToMessage\<close>: the new state and sidebar, the effects, and the exception, if one
  of the queries throws.
\<close>

definition scrollToMessage ::
  "page \<Rightarrow> string option \<Rightarrow> string \<Rightarrow> state \<times> sidebar \<Rightarrow>
   (state \<times> sidebar) \<times> effect list \<times> error option" where
  "scrollToMessage p platform i su =
     (case su of (st, ui) \<Rightarrow>
        (case find (\<lambda>a. msg_id (heap st a) = i) (messages st) of
           None \<Rightarrow> ((st, ui), [], None)
         | Some a \<Rightarrow>
             (case querySelector p (sidebarCard p) i of
                Inl e \<Rightarrow> ((st, ui), [], Some e)
              | Inr messageCard \<Rightarrow>
                  let press = (case messageCard of Some n \<Rightarrow> [PressCard n] | None \<Rightarrow> [])
                  in (case highlightSidebarMessage p i ui of
                        (ui', active, Some e) \<Rightarrow> ((st, ui'), press @ active, Some e)
                      | (ui', active, None) \<Rightarrow>
                          (case ensureMessageElement p platform (heap st) a i of
                             Inl e \<Rightarrow> ((st, ui'), press @ active, Some e)
                           | Inr (None, h) \<Rightarrow> ((st\<lparr>heap := h\<rparr>, ui'), press @ active, None)
                           | Inr (Some t, h) \<Rightarrow>
                               if \<not> isConnected p t
                               then ((st\<lparr>heap := h\<rparr>, ui'), press @ active, None)
                               else ((st\<lparr>heap := h\<rparr>, ui'),
                                     press @ active @ [ScrollTo t, HighlightMessage t], None))))))"

text \<open>The effects on the host page, as opposed to the sidebar.\<close>

definition isHostEffect :: "effect \<Rightarrow> bool" where
  "isHostEffect e = (case e of ScrollTo n \<Rightarrow> True | HighlightMessage n \<Rightarrow> True | _ \<Rightarrow> False)"

section \<open>Favorites\<close>

text \<open>
  \<^verbatim>\<open>toggleFavorite\<close>: the query of the button comes first; then the update of the list
  \<^verbatim>\<open>favorites\<close>. The new list is what is sent to the background page with
  \<^verbatim>\<open>SAVE_FAVORITES\<close>. When the query throws, the list is as it was and nothing is sent.
\<close>

definition toggleFavorite ::
  "page \<Rightarrow> string \<Rightarrow> string list \<Rightarrow> error + (string list \<times> effect list)" where
  "toggleFavorite p i favorites =
     (case querySelector p (favoriteButton p) i of
        Inl e \<Rightarrow> Inl e
      | Inr favoriteBtn \<Rightarrow>
          Inr (if i \<in> set favorites then filter (\<lambda>f. f \<noteq> i) favorites else favorites @ [i],
               case favoriteBtn of Some n \<Rightarrow> [PressFavorite n] | None \<Rightarrow> []))"

text \<open>The list of favorites after the click: unchanged when the handler throws.\<close>

definition favoritesAfter :: "page \<Rightarrow> string \<Rightarrow> string list \<Rightarrow> string list" where
  "favoritesAfter p i favorites =
     (case toggleFavorite p i favorites of Inl e \<Rightarrow> favorites | Inr r \<Rightarrow> fst r)"

section \<open>Scroll animation\<close>

text \<open>
  \<^verbatim>\<open>smoothScrollToTarget\<close>. Pixel and millisecond values are real numbers here. The layout
  the function meets at an attempt is given by the world: the distance \<open>desired - start\<close>
  computed at its start, and the rectangle of the target and the height of the window
  read by \<^verbatim>\<open>isTargetCentered\<close> once its animation has run. \<open>animate\<close> is the chain of
  animation frames, given the elapsed time at each frame: the positions written, and
  whether the last frame reached progress 1. \<open>smoothScrollToTarget\<close> returns the durations
  of the animations it starts, one after the other.
\<close>

record layout =
  delta :: real
  rectTop :: real
  rectHeight :: real
  innerHeight :: real

definition easeOutQuart :: "real \<Rightarrow> real" where
  "easeOutQuart t = 1 - (1 - t) ^ 4"

definition scrollDuration :: "nat \<Rightarrow> real \<Rightarrow> real" where
  "scrollDuration attempt absDelta =
     (let baseDuration = 320; dynamicPart = min (absDelta * 0.4) 580
      in if attempt = 0 then baseDuration + dynamicPart else 300)"

definition isTargetCentered :: "layout \<Rightarrow> bool" where
  "isTargetCentered l \<longleftrightarrow>
     \<bar>(rectTop l + min (rectHeight l) 140 / 2) - innerHeight l / 2\<bar> < 90"

definition framePosition :: "real \<Rightarrow> real \<Rightarrow> real \<Rightarrow> real \<Rightarrow> real" where
  "framePosition start dlt duration elapsed =
     start + dlt * easeOutQuart (min 1 (elapsed / duration))"

fun animate :: "real \<Rightarrow> real \<Rightarrow> real \<Rightarrow> real list \<Rightarrow> real list \<times> bool" where
  "animate start dlt duration [] = ([], False)"
| "animate start dlt duration (elapsed # rest) =
     (if min 1 (elapsed / duration) < 1
      then (case animate start dlt duration rest of
              (positions, finished) \<Rightarrow> (framePosition start dlt duration elapsed # positions, finished))
      else ([framePosition start dlt duration elapsed], True))"

function smoothScrollToTarget :: "(nat \<Rightarrow> layout) \<Rightarrow> nat \<Rightarrow> real list" where
  "smoothScrollToTarget L attempt =
     (let maxAttempts = 2; absDelta = \<bar>delta (L attempt)\<bar>
      in if absDelta < 1 then []
         else scrollDuration attempt absDelta #
              (if attempt < maxAttempts \<and> \<not> isTargetCentered (L attempt)
               then smoothScrollToTarget L (attempt + 1)
               else []))"
  by pat_completeness auto
termination
  by (relation "measure (\<lambda>(L, attempt). 3 - attempt)") auto


section \<open>Stable identifiers of the adapters\<close>

text \<open>
  Gemini's \<^verbatim>\<open>getStableId\<close> reads and writes attributes of the element: the marker
  \<^verbatim>\<open>data-hopper-id\<close>, and \<^verbatim>\<open>data-message-id\<close> or the element's \<^verbatim>\<open>id\<close>. It returns the
  identifier and the attributes after the call. Kimi and Grok build the identifier from
  the role, the index of the item and a prefix of its content, without any state.
\<close>

record attributes =
  hopperId :: "node \<Rightarrow> string option"
  messageId :: "node \<Rightarrow> string option"
  elementId :: "node \<Rightarrow> string"

definition roleName :: "role \<Rightarrow> string" where
  "roleName r = (case r of User \<Rightarrow> ''user'' | Assistant \<Rightarrow> ''assistant'')"

definition getStableId :: "attributes \<Rightarrow> node option \<Rightarrow> role \<Rightarrow> string \<Rightarrow> string \<times> attributes" where
  "getStableId attrs el r fallbackHash =
     (case el of
        None \<Rightarrow> (''msg-gemini-'' @ roleName r @ ''-'' @ fallbackHash, attrs)
      | Some e \<Rightarrow>
          (let existing = (case hopperId attrs e of Some s \<Rightarrow> s | None \<Rightarrow> [])
           in if existing \<noteq> [] then (existing, attrs)
              else
                let m = (case messageId attrs e of Some s \<Rightarrow> s | None \<Rightarrow> []);
                    domId = (if m \<noteq> [] then m else elementId attrs e);
                    newId = (if domId \<noteq> []
                             then ''msg-gemini-'' @ roleName r @ ''-'' @ domId
                             else ''msg-gemini-'' @ roleName r @ ''-'' @ fallbackHash)
                in (newId, attrs\<lparr>hopperId := (hopperId attrs)(e \<mapsto> newId)\<rparr>)))"


section \<open>Notions used to state the properties\<close>

text \<open>
  \<open>withinHops d k n e\<close>: the element \<open>e\<close> is \<open>n\<close> itself or an ancestor of \<open>n\<close> reached by at
  most \<open>k\<close> steps of \<^verbatim>\<open>parentElement\<close>.
\<close>

fun withinHops :: "dom \<Rightarrow> nat \<Rightarrow> node \<Rightarrow> node \<Rightarrow> bool" where
  "withinHops d 0 n e = (n = e)"
| "withinHops d (Suc k) n e =
     (n = e \<or> (case parentElement d n of None \<Rightarrow> False | Some p \<Rightarrow> withinHops d k p e))"


text \<open>
  Two messages do not carry the same defined \<^verbatim>\<open>order\<close>; and the element of the new message
  is neither the element of the existing one nor one or two \<^verbatim>\<open>parentElement\<close> steps below
  it (or one of the two has no element).
\<close>

definition distinctOrder :: "message \<Rightarrow> message \<Rightarrow> bool" where
  "distinctOrder e n \<longleftrightarrow> order e = None \<or> order n = None \<or> order e \<noteq> order n"

definition farApart :: "dom \<Rightarrow> message \<Rightarrow> message \<Rightarrow> bool" where
  "farApart d e n =
     (case (element e, element n) of
        (Some x, Some y) \<Rightarrow> \<not> withinHops d 2 y x
      | _ \<Rightarrow> True)"

text \<open>
  The three ways in which a candidate repeats an existing message: the same role, the
  same defined \<^verbatim>\<open>order\<close> and the same non-empty normalized content; the same role and the
  same element; the same role, near-identical non-empty normalized contents, and the
  element of the candidate the element of the existing message or one or two
  \<^verbatim>\<open>parentElement\<close> steps below it.
\<close>

definition sameOrderAndContent :: "message \<Rightarrow> message \<Rightarrow> bool" where
  "sameOrderAndContent e n \<longleftrightarrow>
     role e = role n \<and> order e \<noteq> None \<and> order e = order n \<and>
     normalizedContent e \<noteq> [] \<and> normalizedContent e = normalizedContent n"

definition sameRoleAndElement :: "message \<Rightarrow> message \<Rightarrow> bool" where
  "sameRoleAndElement e n \<longleftrightarrow> role e = role n \<and> sameElement e n"

definition nearDuplicateNearby :: "dom \<Rightarrow> message \<Rightarrow> message \<Rightarrow> bool" where
  "nearDuplicateNearby d e n \<longleftrightarrow>
     role e = role n \<and> normalizedContent e \<noteq> [] \<and> normalizedContent n \<noteq> [] \<and>
     nearIdentical (normalizedContent e) (normalizedContent n) \<and> \<not> farApart d e n"

text \<open>
  Three orders on messages. \<open>orderedBefore\<close>: by \<^verbatim>\<open>order\<close> where both have one, a message
  with an order before one without. \<open>sortedBefore\<close>: the same, and two messages without
  order by the document position of their elements, then (same element) by timestamp,
  and by timestamp when an element is missing. \<open>positionsConsistent\<close>: every message
  without order has an element, and distinct elements have distinct document positions.
\<close>

definition orderedBefore :: "message \<Rightarrow> message \<Rightarrow> bool" where
  "orderedBefore a b =
     (case (order a, order b) of
        (Some x, Some y) \<Rightarrow> x \<le> y
      | (Some x, None) \<Rightarrow> True
      | (None, Some y) \<Rightarrow> False
      | (None, None) \<Rightarrow> True)"

definition sortedBefore :: "dom \<Rightarrow> message \<Rightarrow> message \<Rightarrow> bool" where
  "sortedBefore d a b =
     (case (order a, order b) of
        (Some x, Some y) \<Rightarrow> x \<le> y
      | (Some x, None) \<Rightarrow> True
      | (None, Some y) \<Rightarrow> False
      | (None, None) \<Rightarrow>
          (case (element a, element b) of
             (Some ea, Some eb) \<Rightarrow>
               docIndex d ea < docIndex d eb \<or> (ea = eb \<and> timestamp a \<le> timestamp b)
           | _ \<Rightarrow> timestamp a \<le> timestamp b))"

definition positionsConsistent :: "dom \<Rightarrow> message list \<Rightarrow> bool" where
  "positionsConsistent d ms \<longleftrightarrow>
     (\<forall>m \<in> set ms. order m = None \<longrightarrow> element m \<noteq> None) \<and>
     (\<forall>a \<in> set ms. \<forall>b \<in> set ms.
        case (element a, element b) of
          (Some x, Some y) \<Rightarrow> docIndex d x = docIndex d y \<longrightarrow> x = y
        | _ \<Rightarrow> True)"

text \<open>
  The order of the specification as the claim reads it: \<^verbatim>\<open>order\<close> ascending; document
  position ascending when the \<^verbatim>\<open>order\<close> values tie or one is absent; timestamp ascending
  as the last resort.
\<close>

definition positionBefore :: "dom \<Rightarrow> message \<Rightarrow> message \<Rightarrow> bool" where
  "positionBefore d a b =
     (case (element a, element b) of
        (Some ea, Some eb) \<Rightarrow>
          if docIndex d ea \<noteq> docIndex d eb then docIndex d ea < docIndex d eb
          else timestamp a \<le> timestamp b
      | _ \<Rightarrow> timestamp a \<le> timestamp b)"

definition specBefore :: "dom \<Rightarrow> message \<Rightarrow> message \<Rightarrow> bool" where
  "specBefore d a b =
     (case (order a, order b) of
        (Some x, Some y) \<Rightarrow> if x \<noteq> y then x < y else positionBefore d a b
      | _ \<Rightarrow> positionBefore d a b)"


text \<open>
  A message without its detection time: two detections of an unchanged document build
  objects that differ in \<^verbatim>\<open>timestamp\<close> (\<^verbatim>\<open>Date.now()\<close>) only.
\<close>

definition stripTimestamp :: "message \<Rightarrow> message" where
  "stripTimestamp m = m\<lparr>timestamp := 0\<rparr>"


subsection \<open>Example documents and states\<close>

text \<open>
  A document in which node 20 lies five \<^verbatim>\<open>parentElement\<close> steps below node 10, and stores
  holding messages with the content \<^verbatim>\<open>hi\<close>.
\<close>

definition blankMessage :: message where
  "blankMessage = \<lparr>msg_id = [], role = User, content = [], fullContent = [], element = None,
     timestamp = 0, order = None, originalId = None\<rparr>"

definition chainDom :: dom where
  "chainDom = \<lparr>parentElement = (\<lambda>_. None)(20 := Some 21, 21 := Some 22, 22 := Some 23,
       23 := Some 24, 24 := Some 10),
     docIndex = (\<lambda>n. n), offsetTop = (\<lambda>_. 0), isConnected = (\<lambda>_. True)\<rparr>"

definition hiMessage :: "string \<Rightarrow> node \<Rightarrow> int \<Rightarrow> int \<Rightarrow> message" where
  "hiMessage i el ts k = \<lparr>msg_id = i, role = User, content = ''hi'', fullContent = ''hi'',
     element = Some el, timestamp = ts, order = Some k, originalId = None\<rparr>"

definition repeatState :: state where
  "repeatState = \<lparr>heap = (\<lambda>_. blankMessage)
       (1 := hiMessage ''msg-kimi-user-0-hi'' 10 1000 0,
        2 := hiMessage ''msg-kimi-user-1-hi'' 20 2000 0,
        3 := hiMessage ''msg-kimi-user-0-hi'' 10 3000 0,
        4 := hiMessage ''msg-kimi-user-2-hi'' 20 3000 2,
        8 := hiMessage ''msg-kimi-user-3-hi'' 10 3000 3,
        9 := hiMessage ''msg-kimi-user-4-hi'' 23 3000 4,
        10 := hiMessage ''msg-kimi-user-5-hi'' 22 3000 5),
     messages = [1], console = 0\<rparr>"

definition sameIdState :: state where
  "sameIdState = \<lparr>heap = (\<lambda>_. blankMessage)
       (1 := hiMessage ''msg-gemini-user-r1'' 10 1000 0,
        2 := hiMessage ''msg-gemini-user-r1'' 20 1000 1),
     messages = [], console = 0\<rparr>"


text \<open>
  A DeepSeek state whose only message has order 4; a Kimi state in which an older message
  (node 5) is loaded above the message already detected (node 10); and messages that
  carry no order.
\<close>

definition deepSeekState :: state where
  "deepSeekState = \<lparr>heap = (\<lambda>_. blankMessage)
       (1 := hiMessage ''msg-deepseek-user-0'' 10 1000 4,
        2 := hiMessage ''msg-deepseek-user-0'' 10 2000 0,
        3 := (hiMessage ''msg-deepseek-assistant-1'' 11 2000 1)\<lparr>role := Assistant\<rparr>,
        4 := hiMessage ''msg-deepseek-user-2'' 12 2000 2,
        5 := hiMessage ''msg-deepseek-user-9'' 10 2000 0),
     messages = [1], console = 0\<rparr>"


definition historyState :: state where
  "historyState = \<lparr>heap = (\<lambda>_. blankMessage)
       (1 := \<lparr>msg_id = ''msg-kimi-assistant-0-hello'', role = Assistant, content = ''hello'',
               fullContent = ''hello'', element = Some 10, timestamp = 1000, order = Some 0,
               originalId = None\<rparr>,
        2 := hiMessage ''msg-kimi-user-0-hi'' 5 2000 0,
        3 := \<lparr>msg_id = ''msg-kimi-assistant-1-hello'', role = Assistant, content = ''hello'',
               fullContent = ''hello'', element = Some 10, timestamp = 2000, order = Some 1,
               originalId = None\<rparr>),
     messages = [1], console = 0\<rparr>"

definition orderlessState :: state where
  "orderlessState = \<lparr>heap = (\<lambda>_. blankMessage)
       (1 := (hiMessage ''msg-a'' 12 5 0)\<lparr>order := None\<rparr>,
        2 := (hiMessage ''msg-b'' 11 9 0)\<lparr>order := None, role := Assistant\<rparr>),
     messages = [], console = 0\<rparr>"


text \<open>
  The store at the second detection of the unchanged Kimi document: the adapter has built
  two new objects, at addresses 6 and 7, equal to those of the first detection but for
  the timestamp.
\<close>

definition secondPassHeap :: "addr \<Rightarrow> message" where
  "secondPassHeap =
     (heap (detectMessages (Some ''Kimi'') chainDom (Inr [2, 4]) repeatState))
       (6 := (heap repeatState 2)\<lparr>timestamp := 5000\<rparr>,
        7 := (heap repeatState 4)\<lparr>timestamp := 5000\<rparr>)"


text \<open>
  A Kimi conversation watched by the scheduler: the adapter shows the message at address
  1 until time 2850 and the message at address 2 afterwards, and the address of the page
  changes at time 1900. In the streaming world \<^verbatim>\<open>isStreaming\<close> answers yes before time
  6000. A Gemini page on which the element of the only message (node 10) is detached and
  no query finds a replacement. A layout that keeps shifting: at every attempt the
  target is 1000 pixels away and off centre.
\<close>

definition chatHeap :: "addr \<Rightarrow> message" where
  "chatHeap = (\<lambda>_. blankMessage)
       (1 := hiMessage ''msg-kimi-user-0-hi'' 10 1000 0,
        2 := (hiMessage ''msg-kimi-user-0-hello'' 11 3000 0)
               \<lparr>content := ''hello'', fullContent := ''hello''\<rparr>)"

definition watching :: sched where
  "watching = \<lparr>engine = \<lparr>heap = chatHeap, messages = [], console = 0\<rparr>,
     now = 0, timers = [], nextHandle = 1, observerTimeout = None, streamingTimeout = None,
     hopperDeepSeekInterval = None, hopperQwenInterval = None, observer = True,
     isResetting = False, currentUrl = ''/chat/a'', passes = []\<rparr>"

definition kimiWorld :: world where
  "kimiWorld = \<lparr>platformName = ''Kimi'',
     adapterDetect = (\<lambda>t. if t < 2850 then Inr [1] else Inr [2]),
     isStreamingAt = Some (\<lambda>t. False),
     getDebounceTime = Some 800, getStreamingWaitTime = Some 2000,
     normalizeUrl = (\<lambda>u. u), documentAt = (\<lambda>t. chainDom),
     locationAt = (\<lambda>t. if t < 1900 then ''/chat/a'' else ''/chat/b'')\<rparr>"

definition streamingWorld :: world where
  "streamingWorld = kimiWorld\<lparr>isStreamingAt := Some (\<lambda>t. t < 6000),
     adapterDetect := (\<lambda>t. Inr [1]), locationAt := (\<lambda>t. ''/chat/a'')\<rparr>"


text \<open>
  A Kimi conversation that was re-rendered: the elements the two messages were detected
  on are detached; no item of the chat carries the text of the first message any more,
  item 20 carries the text of the second; the cards of both are in the sidebar.
\<close>

definition rerenderedPage :: page where
  "rerenderedPage = \<lparr>parentElement = (\<lambda>_. None), docIndex = (\<lambda>n. n), offsetTop = (\<lambda>_. 0),
     isConnected = (\<lambda>n. n \<noteq> 10 \<and> n \<noteq> 11),
     rejectsSelector = (\<lambda>i. i = ''msg-kimi-user-0-say'' @ [CHR 0x22] @ ''hi'' @ [CHR 0x22]),
     getElementById = (\<lambda>_. None), hostDataId = (\<lambda>_. None), queryIdContains = (\<lambda>_. None),
     sidebarCard = (\<lambda>i. if i = ''msg-kimi-user-0-hi'' then Some 90
                        else if i = ''msg-kimi-user-1-hello'' then Some 93 else None),
     favoriteButtonOf = (\<lambda>n. n + 2),
     chatContentItems = [20, 21], assistantBlocks = [30], userBlocks = [31],
     textContent = (\<lambda>n. if n = 20 then ''Hello there'' else if n = 21 then ''General Kenobi''
                         else if n = 31 then ''Hello there'' else ''General Kenobi''),
     closestItem = (\<lambda>n. if n = 31 then Some 20 else if n = 30 then Some 21 else None)\<rparr>"



text \<open>
  The id the sidebar hands to its click handlers for a Kimi message whose text is
  \<^verbatim>\<open>say&quot;hi&quot;\<close>: the id of the message, \<^verbatim>\<open>msg-kimi-user-0-say&quot;hi&quot;\<close>, is
  written into the attribute \<^verbatim>\<open>data-id\<close> of the card unescaped, the HTML parser decodes
  the two entities, and \<^verbatim>\<open>dataset.id\<close> carries two double quotes.
\<close>

definition quotedId :: string where
  "quotedId = ''msg-kimi-user-0-say'' @ [CHR 0x22] @ ''hi'' @ [CHR 0x22]"

definition shiftingLayout :: "nat \<Rightarrow> layout" where
  "shiftingLayout attempt = \<lparr>delta = 1000, rectTop = 120, rectHeight = 200, innerHeight = 800\<rparr>"

section \<open>Properties of the detection pass\<close>

subsection \<open>Renumbering and the store\<close>

lemma renumber_other: "a \<notin> set as \<Longrightarrow> renumber base i as h a = h a"
  by (induction as arbitrary: i h) auto

lemma renumber_fields: "\<exists>k. renumber base i as h a = (h a)\<lparr>order := k\<rparr>"
proof (induction as arbitrary: i h)
  case Nil
  have "h a = (h a)\<lparr>order := order (h a)\<rparr>" by simp
  then show ?case unfolding renumber.simps by (rule exI)
next
  case (Cons b as)
  let ?h = "h(b := (h b)\<lparr>order := Some (base + 1 + int i)\<rparr>)"
  from Cons.IH [of "Suc i" ?h] obtain k where k: "renumber base (Suc i) as ?h a = (?h a)\<lparr>order := k\<rparr>"
    by blast
  have "(?h a)\<lparr>order := k\<rparr> = (h a)\<lparr>order := k\<rparr>" by simp
  with k have "renumber base i (b # as) h a = (h a)\<lparr>order := k\<rparr>" by simp
  then show ?case by (rule exI)
qed

lemma renumber_in:
  "a \<in> set as \<Longrightarrow> \<exists>n < length as. order (renumber base i as h a) = Some (base + 1 + int (i + n))"
proof (induction as arbitrary: i h)
  case Nil
  then show ?case by simp
next
  case (Cons b as)
  show ?case
  proof (cases "a \<in> set as")
    case True
    from Cons.IH [OF True, of "Suc i"] obtain n where "n < length as"
      "order (renumber base (Suc i) as (h(b := (h b)\<lparr>order := Some (base + 1 + int i)\<rparr>)) a) = Some (base + 1 + int (Suc i + n))"
      by blast
    then show ?thesis by (intro exI [of _ "Suc n"]) simp
  next
    case False
    with Cons.prems have "a = b" by simp
    with False show ?thesis by (intro exI [of _ 0]) (simp add: renumber_other)
  qed
qed

lemma renumber_distinct:
  "distinct as \<Longrightarrow> n < length as \<Longrightarrow>
   renumber base i as h (as ! n) = (h (as ! n))\<lparr>order := Some (base + 1 + int (i + n))\<rparr>"
proof (induction as arbitrary: i h n)
  case Nil
  then show ?case by simp
next
  case (Cons b as)
  show ?case
  proof (cases n)
    case 0
    with Cons.prems show ?thesis by (simp add: renumber_other)
  next
    case (Suc m)
    with Cons.prems have "m < length as" "distinct as" "as ! m \<noteq> b" by auto
    with Cons.IH [of m "Suc i"] Suc show ?thesis by simp
  qed
qed

lemma uniqueById_not_existing:
  "a \<in> set (messages st) \<Longrightarrow> a \<notin> set (uniqueById st newMessages)"
  by (auto simp: uniqueById_def existingIds_def)

lemma renumbered_existing:
  "a \<in> set (messages st) \<Longrightarrow> renumbered name st (uniqueById st newMessages) a = heap st a"
  by (simp add: renumbered_def renumber_other uniqueById_not_existing)

lemma renumbered_fields:
  "\<exists>k. renumbered name st us a = (heap st a)\<lparr>order := k\<rparr>"
proof (cases "name = ''DeepSeek'' \<and> us \<noteq> []")
  case True
  then show ?thesis using renumber_fields [of "maxExistingOrder st" 0 us "heap st" a]
    by (simp add: renumbered_def)
next
  case False
  have "heap st a = (heap st a)\<lparr>order := order (heap st a)\<rparr>" by simp
  moreover from False have "renumbered name st us a = heap st a" by (auto simp: renumbered_def)
  ultimately have "renumbered name st us a = (heap st a)\<lparr>order := order (heap st a)\<rparr>" by simp
  then show ?thesis by (rule exI)
qed

lemma renumbered_msg_id: "msg_id (renumbered name st us a) = msg_id (heap st a)"
proof -
  obtain k where "renumbered name st us a = (heap st a)\<lparr>order := k\<rparr>"
    using renumbered_fields by blast
  then show ?thesis by simp
qed

lemma mset_insertSorted: "mset (insertSorted cmp x ys) = add_mset x (mset ys)"
  by (induction ys) auto

lemma mset_sortBy: "mset (sortBy cmp xs) = mset xs"
  by (induction xs) (auto simp: sortBy_def mset_insertSorted)

lemma set_sortBy: "set (sortBy cmp xs) = set xs"
  using mset_sortBy [of cmp xs] by (metis set_mset_mset)

declare ancestorWalk.simps [simp del]

lemma ancestorWalk_distance: "distance \<le> snd (ancestorWalk d target current distance)"
proof (induction d target current distance rule: ancestorWalk.induct)
  case (1 d target current distance)
  show ?case
  proof (cases current)
    case None
    then show ?thesis by (simp add: ancestorWalk.simps)
  next
    case (Some c)
    show ?thesis
    proof (cases "c \<noteq> target \<and> distance < 5")
      case True
      with 1 [OF Some True] Some show ?thesis
        by (subst ancestorWalk.simps) simp
    next
      case False
      with Some show ?thesis by (subst ancestorWalk.simps) auto
    qed
  qed
qed

lemma ancestorWalk_far:
  "3 \<le> distance \<Longrightarrow> \<not> (snd (ancestorWalk d target current distance) < 3)"
  using ancestorWalk_distance [of distance d target current] by simp

lemma closeInDom_iff: "closeInDom d e n \<longleftrightarrow> withinHops d 2 n e"
proof -
  have far: "\<And>c. \<not> (case ancestorWalk d e c 3 of (current, distance) \<Rightarrow> distance < 3 \<and> current = Some e)"
    using ancestorWalk_far [of 3 d e] by (auto split: prod.splits) (metis snd_conv)
  have two: "\<And>c. (case ancestorWalk d e c 2 of (current, distance) \<Rightarrow> distance < 3 \<and> current = Some e)
      \<longleftrightarrow> c = Some e"
    subgoal for c
      by (subst ancestorWalk.simps) (use far in \<open>auto split: option.splits simp: numeral_3_eq_3 numeral_2_eq_2\<close>)
    done
  have one: "\<And>c. (case ancestorWalk d e c 1 of (current, distance) \<Rightarrow> distance < 3 \<and> current = Some e)
      \<longleftrightarrow> (case c of None \<Rightarrow> False | Some p \<Rightarrow> p = e \<or> parentElement d p = Some e)"
    subgoal for c
      by (subst ancestorWalk.simps) (use two in \<open>auto split: option.splits simp: numeral_2_eq_2\<close>)
    done
  show ?thesis
    unfolding closeInDom_def
    by (subst ancestorWalk.simps) (use one in \<open>auto split: option.splits simp: numeral_2_eq_2\<close>)
qed

lemma keepCandidate_iff:
  "keepCandidate d es n \<longleftrightarrow> (\<forall>e \<in> set es. \<not> returnsFalse d e n)"
  by (induction es) auto

lemma maxExistingOrder_ge:
  "a \<in> set (messages st) \<Longrightarrow> order (heap st a) = Some j \<Longrightarrow> j \<le> maxExistingOrder st"
proof -
  assume a: "a \<in> set (messages st)" and j: "order (heap st a) = Some j"
  let ?f = "\<lambda>a. case order (heap st a) of Some k \<Rightarrow> k | None \<Rightarrow> - 1"
  from a have "?f a \<in> set (map ?f (messages st))" by (rule imageI [of a "set (messages st)" ?f, simplified set_map [symmetric]])
  then have "?f a \<le> Max (set (map ?f (messages st)))" by (intro Max_ge) auto
  moreover from a have "messages st \<noteq> []" by auto
  ultimately show ?thesis using j by (simp add: maxExistingOrder_def)
qed

lemma renumbered_DeepSeek_order:
  "a \<in> set us \<Longrightarrow>
   \<exists>n < length us. order (renumbered ''DeepSeek'' st us a) = Some (maxExistingOrder st + 1 + int n)"
proof -
  assume a: "a \<in> set us"
  then have "us \<noteq> []" by auto
  with renumber_in [OF a, of "maxExistingOrder st" 0 "heap st"] show ?thesis
    by (simp add: renumbered_def)
qed

lemma renumbered_other_name:
  "name \<noteq> ''DeepSeek'' \<Longrightarrow> renumbered name st us = heap st"
  by (simp add: renumbered_def)

lemma withinHops_refl: "withinHops d k n n"
  by (cases k) auto

lemma not_returnsFalse:
  assumes "role e = role n \<Longrightarrow> order e = None \<or> order n = None \<or> order e \<noteq> order n"
    and "\<And>x y. role e = role n \<Longrightarrow> element e = Some x \<Longrightarrow> element n = Some y \<Longrightarrow> \<not> withinHops d 2 y x"
  shows "\<not> returnsFalse d e n"
proof (cases "role e = role n")
  case False
  then show ?thesis by (simp add: returnsFalse_def)
next
  case True
  from assms(2) [OF True] have ne: "\<not> sameElement e n"
    using withinHops_refl [of d 2] by (auto simp: sameElement_def split: option.splits)
  from assms(2) [OF True] have far: "\<And>x y. element e = Some x \<Longrightarrow> element n = Some y \<Longrightarrow> \<not> closeInDom d x y"
    by (simp add: closeInDom_iff)
  from assms(1) [OF True] ne far show ?thesis
    by (auto simp: returnsFalse_def split: option.splits)
qed

lemma accepted_subset:
  "a \<in> set (accepted name d st newMessages) \<Longrightarrow>
   a \<in> set newMessages \<and> msg_id (heap st a) \<notin> existingIds st"
  by (auto simp: accepted_def Let_def uniqueById_def)

lemma accepted_Nil [simp]: "accepted name d st [] = []"
  by (simp add: accepted_def uniqueById_def)

lemma messages_merge:
  "mset (messages (mergeNewMessages name d newMessages st)) =
   mset (messages st) + mset (accepted name d st newMessages)"
  by (simp add: mergeNewMessages_def Let_def mset_sortBy)

lemma heap_merge:
  "heap (mergeNewMessages name d newMessages st) =
   (if newMessages = [] then heap st else renumbered name st (uniqueById st newMessages))"
  by (simp add: mergeNewMessages_def Let_def)

lemma msg_id_heap_merge:
  "msg_id (heap (mergeNewMessages name d newMessages st) a) = msg_id (heap st a)"
  by (simp add: heap_merge renumbered_msg_id)

lemma distinct_map_mset_cong:
  "mset xs = mset ys \<Longrightarrow> distinct (map f xs) = distinct (map f ys)"
proof -
  assume "mset xs = mset ys"
  then have "mset (map f xs) = mset (map f ys)" by simp
  then show ?thesis by (rule mset_eq_imp_distinct_iff)
qed

lemma accepted_distinct_ids:
  assumes "distinct (map (\<lambda>a. msg_id (heap st a)) newMessages)"
  shows "distinct (map (\<lambda>a. msg_id (heap st a)) (accepted name d st newMessages))"
  using assms by (simp add: accepted_def Let_def uniqueById_def distinct_map_filter)

lemma merge_distinct_ids:
  assumes "distinct (map msg_id (sequence st))"
    and "distinct (map (\<lambda>a. msg_id (heap st a)) newMessages)"
  shows "distinct (map msg_id (sequence (mergeNewMessages name d newMessages st)))"
proof -
  let ?st' = "mergeNewMessages name d newMessages st"
  let ?f = "\<lambda>a. msg_id (heap st a)"
  have "map msg_id (sequence ?st') = map ?f (messages ?st')"
    by (simp add: sequence_def msg_id_heap_merge comp_def)
  moreover have "distinct (map ?f (messages ?st')) =
      distinct (map ?f (messages st @ accepted name d st newMessages))"
    by (rule distinct_map_mset_cong) (simp add: messages_merge)
  moreover have "distinct (map ?f (messages st @ accepted name d st newMessages))"
  proof -
    have "distinct (map ?f (messages st))"
      using assms(1) by (simp add: sequence_def comp_def)
    moreover have "distinct (map ?f (accepted name d st newMessages))"
      using assms(2) by (rule accepted_distinct_ids)
    moreover have "?f ` set (messages st) \<inter> ?f ` set (accepted name d st newMessages) = {}"
    proof -
      have "?f a \<noteq> ?f b" if "a \<in> set (messages st)" "b \<in> set (accepted name d st newMessages)" for a b
      proof -
        from that(1) have "?f a \<in> existingIds st" by (simp add: existingIds_def)
        moreover from accepted_subset [OF that(2)] have "?f b \<notin> existingIds st" by simp
        ultimately show ?thesis by metis
      qed
      then show ?thesis by auto
    qed
    ultimately show ?thesis by simp
  qed
  ultimately show ?thesis by simp
qed

lemma accepted_far:
  assumes c: "c \<in> set newMessages" and new: "msg_id (heap st c) \<notin> existingIds st"
    and ord: "\<And>e. e \<in> set (messages st) \<Longrightarrow> role (heap st e) = role (heap st c) \<Longrightarrow>
             name = ''DeepSeek'' \<or> order (heap st e) = None \<or> order (heap st c) = None \<or>
             order (heap st e) \<noteq> order (heap st c)"
    and far: "\<And>e x y. e \<in> set (messages st) \<Longrightarrow> role (heap st e) = role (heap st c) \<Longrightarrow>
             element (heap st e) = Some x \<Longrightarrow> element (heap st c) = Some y \<Longrightarrow>
             \<not> withinHops d 2 y x"
  shows "c \<in> set (accepted name d st newMessages)"
proof -
  let ?us = "uniqueById st newMessages"
  let ?h = "renumbered name st ?us"
  from c new have cu: "c \<in> set ?us" by (simp add: uniqueById_def)
  obtain k where hc: "?h c = (heap st c)\<lparr>order := k\<rparr>"
    using renumbered_fields by blast
  have "\<not> returnsFalse d (?h e) (?h c)" if e: "e \<in> set (messages st)" for e
  proof (rule not_returnsFalse)
    have he: "?h e = heap st e" using e by (rule renumbered_existing)
    {
      assume r: "role (?h e) = role (?h c)"
      with he hc have r': "role (heap st e) = role (heap st c)" by simp
      show "order (?h e) = None \<or> order (?h c) = None \<or> order (?h e) \<noteq> order (?h c)"
      proof (cases "name = ''DeepSeek''")
        case True
        from renumbered_DeepSeek_order [OF cu, of st] obtain n
          where n: "order (renumbered ''DeepSeek'' st ?us c) = Some (maxExistingOrder st + 1 + int n)"
          by blast
        show ?thesis
        proof (cases "order (heap st e)")
          case None
          with he show ?thesis by simp
        next
          case (Some j)
          with e have "j \<le> maxExistingOrder st" by (intro maxExistingOrder_ge)
          with Some n True he show ?thesis by simp
        qed
      next
        case False
        then have "?h = heap st" by (rule renumbered_other_name)
        with ord [OF e r'] False show ?thesis by simp
      qed
    }
    {
      fix x y
      assume r: "role (?h e) = role (?h c)"
        and x: "element (?h e) = Some x" and y: "element (?h c) = Some y"
      from r he hc have r': "role (heap st e) = role (heap st c)" by simp
      from x he have x': "element (heap st e) = Some x" by simp
      from y hc have y': "element (heap st c) = Some y" by simp
      from far [OF e r' x' y'] show "\<not> withinHops d 2 y x" .
    }
  qed
  then have "keepCandidate d (map ?h (messages st)) (?h c)"
    by (simp add: keepCandidate_iff)
  with cu show ?thesis by (simp add: accepted_def Let_def)
qed

subsection \<open>Deduplication\<close>

lemma suppressed_not_accepted:
  assumes "e \<in> set (messages st)"
    and "returnsFalse d (heap st e) (renumbered name st (uniqueById st newMessages) c)"
  shows "c \<notin> set (accepted name d st newMessages)"
proof -
  let ?h = "renumbered name st (uniqueById st newMessages)"
  from assms(1) have "?h e = heap st e" by (rule renumbered_existing)
  with assms(2) have "returnsFalse d (?h e) (?h c)" by simp
  with assms(1) have "\<exists>e \<in> set (messages st). returnsFalse d (?h e) (?h c)" by blast
  then have "\<not> keepCandidate d (map ?h (messages st)) (?h c)"
    by (simp add: keepCandidate_iff)
  then show ?thesis by (simp add: accepted_def Let_def)
qed

lemma returnsFalse_same_order_content:
  "sameOrderAndContent e n \<Longrightarrow> returnsFalse d e n"
  by (auto simp: sameOrderAndContent_def returnsFalse_def)

lemma returnsFalse_same_element:
  "sameRoleAndElement e n \<Longrightarrow> returnsFalse d e (n\<lparr>order := k\<rparr>)"
  by (simp add: sameRoleAndElement_def returnsFalse_def sameElement_def)

lemma returnsFalse_near_duplicate:
  assumes "nearDuplicateNearby d e n"
  shows "returnsFalse d e (n\<lparr>order := k\<rparr>)"
proof -
  have nc: "normalizedContent (n\<lparr>order := k\<rparr>) = normalizedContent n"
    by (simp add: normalizedContent_def)
  from assms obtain x y where el: "element e = Some x" "element n = Some y"
    and close: "closeInDom d x y"
    by (auto simp: nearDuplicateNearby_def farApart_def closeInDom_iff split: option.splits)
  from assms have r: "role e = role n" "normalizedContent e \<noteq> []" "normalizedContent n \<noteq> []"
    "nearIdentical (normalizedContent e) (normalizedContent n)"
    by (simp_all add: nearDuplicateNearby_def)
  show ?thesis
    unfolding returnsFalse_def nc using r el close by simp
qed

lemma same_order_content_dropped:
  assumes "name \<noteq> ''DeepSeek''" "e \<in> set (messages st)"
    "sameOrderAndContent (heap st e) (heap st c)"
  shows "c \<notin> set (accepted name d st newMessages)"
proof (rule suppressed_not_accepted [OF assms(2)])
  from assms(1) have "renumbered name st (uniqueById st newMessages) = heap st"
    by (rule renumbered_other_name)
  with assms(3) show "returnsFalse d (heap st e) (renumbered name st (uniqueById st newMessages) c)"
    by (simp add: returnsFalse_same_order_content)
qed

lemma same_element_dropped:
  assumes "e \<in> set (messages st)" "sameRoleAndElement (heap st e) (heap st c)"
  shows "c \<notin> set (accepted name d st newMessages)"
proof (rule suppressed_not_accepted [OF assms(1)])
  obtain k where "renumbered name st (uniqueById st newMessages) c = (heap st c)\<lparr>order := k\<rparr>"
    using renumbered_fields by blast
  with assms(2) show "returnsFalse d (heap st e) (renumbered name st (uniqueById st newMessages) c)"
    by (simp add: returnsFalse_same_element)
qed

lemma near_duplicate_dropped:
  assumes "e \<in> set (messages st)" "nearDuplicateNearby d (heap st e) (heap st c)"
  shows "c \<notin> set (accepted name d st newMessages)"
proof (rule suppressed_not_accepted [OF assms(1)])
  obtain k where "renumbered name st (uniqueById st newMessages) c = (heap st c)\<lparr>order := k\<rparr>"
    using renumbered_fields by blast
  with assms(2) show "returnsFalse d (heap st e) (renumbered name st (uniqueById st newMessages) c)"
    by (simp add: returnsFalse_near_duplicate)
qed

text \<open>
  C1, as amended. (i) A candidate whose id is the id of a message of the sequence is not
  among the accepted candidates, and the new sequence consists of the old one and the
  accepted candidates; if the ids of the sequence are pairwise distinct and the ids of
  the candidates of the pass are pairwise distinct, the ids of the new sequence are
  pairwise distinct. (ii) A candidate whose id is new is accepted if, for every existing
  message of the same role, the two do not carry the same defined order (or the platform
  is DeepSeek, whose candidates are renumbered) and the candidate's element is neither
  the existing element nor one or two ancestor hops below it, whatever the contents.
  (iii) A candidate is not accepted if some existing message has the same role, the same
  defined order and the same non-empty normalized content, wherever its element lies
  (for every platform but DeepSeek, whose candidates are renumbered before the
  comparison); or the same role and the same element; or the same role and a
  near-identical non-empty normalized content, the element of the candidate being the
  existing element or one or two ancestor hops below it.
\<close>

theorem C1_dedup_amended:
  "(\<forall>a \<in> set newMessages. msg_id (heap st a) \<in> existingIds st \<longrightarrow>
      a \<notin> set (accepted name d st newMessages)) \<and>
   mset (messages (detectMessages (Some name) d (Inr newMessages) st)) =
     mset (messages st) + mset (accepted name d st newMessages) \<and>
   (distinct (map msg_id (sequence st)) \<and>
    distinct (map (\<lambda>a. msg_id (heap st a)) newMessages) \<longrightarrow>
      distinct (map msg_id (sequence (detectMessages (Some name) d (Inr newMessages) st)))) \<and>
   (\<forall>c \<in> set newMessages.
      msg_id (heap st c) \<notin> existingIds st \<and>
      (\<forall>e \<in> set (messages st). role (heap st e) = role (heap st c) \<longrightarrow>
         (name = ''DeepSeek'' \<or> distinctOrder (heap st e) (heap st c)) \<and>
         farApart d (heap st e) (heap st c)) \<longrightarrow>
      c \<in> set (accepted name d st newMessages)) \<and>
   (\<forall>c. name \<noteq> ''DeepSeek'' \<and>
      (\<exists>e \<in> set (messages st). sameOrderAndContent (heap st e) (heap st c)) \<longrightarrow>
      c \<notin> set (accepted name d st newMessages)) \<and>
   (\<forall>c. (\<exists>e \<in> set (messages st). sameRoleAndElement (heap st e) (heap st c)) \<longrightarrow>
      c \<notin> set (accepted name d st newMessages)) \<and>
   (\<forall>c. (\<exists>e \<in> set (messages st). nearDuplicateNearby d (heap st e) (heap st c)) \<longrightarrow>
      c \<notin> set (accepted name d st newMessages))"
proof (intro conjI)
  show "\<forall>a \<in> set newMessages. msg_id (heap st a) \<in> existingIds st \<longrightarrow>
      a \<notin> set (accepted name d st newMessages)"
    using accepted_subset [of _ name d st newMessages] by blast
next
  show "mset (messages (detectMessages (Some name) d (Inr newMessages) st)) =
     mset (messages st) + mset (accepted name d st newMessages)"
    by (simp add: detectMessages_def messages_merge)
next
  show "distinct (map msg_id (sequence st)) \<and>
    distinct (map (\<lambda>a. msg_id (heap st a)) newMessages) \<longrightarrow>
      distinct (map msg_id (sequence (detectMessages (Some name) d (Inr newMessages) st)))"
    by (simp add: detectMessages_def merge_distinct_ids)
next
  show "\<forall>c \<in> set newMessages.
      msg_id (heap st c) \<notin> existingIds st \<and>
      (\<forall>e \<in> set (messages st). role (heap st e) = role (heap st c) \<longrightarrow>
         (name = ''DeepSeek'' \<or> distinctOrder (heap st e) (heap st c)) \<and>
         farApart d (heap st e) (heap st c)) \<longrightarrow>
      c \<in> set (accepted name d st newMessages)"
  proof (intro ballI impI)
    fix c
    assume c: "c \<in> set newMessages"
      and h: "msg_id (heap st c) \<notin> existingIds st \<and>
        (\<forall>e \<in> set (messages st). role (heap st e) = role (heap st c) \<longrightarrow>
           (name = ''DeepSeek'' \<or> distinctOrder (heap st e) (heap st c)) \<and>
           farApart d (heap st e) (heap st c))"
    show "c \<in> set (accepted name d st newMessages)"
    proof (rule accepted_far [OF c])
      from h show "msg_id (heap st c) \<notin> existingIds st" by simp
    next
      fix e assume "e \<in> set (messages st)" "role (heap st e) = role (heap st c)"
      with h show "name = ''DeepSeek'' \<or> order (heap st e) = None \<or> order (heap st c) = None \<or>
               order (heap st e) \<noteq> order (heap st c)"
        by (auto simp: distinctOrder_def)
    next
      fix e x y
      assume "e \<in> set (messages st)" "role (heap st e) = role (heap st c)"
        "element (heap st e) = Some x" "element (heap st c) = Some y"
      with h show "\<not> withinHops d 2 y x"
        by (auto simp: farApart_def)
    qed
  qed
next
  show "\<forall>c. name \<noteq> ''DeepSeek'' \<and>
      (\<exists>e \<in> set (messages st). sameOrderAndContent (heap st e) (heap st c)) \<longrightarrow>
      c \<notin> set (accepted name d st newMessages)"
    using same_order_content_dropped by blast
next
  show "\<forall>c. (\<exists>e \<in> set (messages st). sameRoleAndElement (heap st e) (heap st c)) \<longrightarrow>
      c \<notin> set (accepted name d st newMessages)"
    using same_element_dropped by blast
next
  show "\<forall>c. (\<exists>e \<in> set (messages st). nearDuplicateNearby d (heap st e) (heap st c)) \<longrightarrow>
      c \<notin> set (accepted name d st newMessages)"
    using near_duplicate_dropped by blast
qed

text \<open>
  The amended statement at a state with one message, whose element is node 10. Of the
  candidates of the pass, that at address 3 repeats the id; that at address 2 the
  order and the content, five hops away; that at address 8 the element; that at
  address 9 the content, two hops below: all four are dropped. Those at addresses 4 and
  10 repeat the content five and three hops below with another order, and are
  accepted.
\<close>

theorem C1_dedup_amended_witness:
  "3 \<notin> set (accepted ''Kimi'' chainDom repeatState [3, 4, 2, 8, 9, 10]) \<and>
   2 \<notin> set (accepted ''Kimi'' chainDom repeatState [3, 4, 2, 8, 9, 10]) \<and>
   8 \<notin> set (accepted ''Kimi'' chainDom repeatState [3, 4, 2, 8, 9, 10]) \<and>
   9 \<notin> set (accepted ''Kimi'' chainDom repeatState [3, 4, 2, 8, 9, 10]) \<and>
   4 \<in> set (accepted ''Kimi'' chainDom repeatState [3, 4, 2, 8, 9, 10]) \<and>
   10 \<in> set (accepted ''Kimi'' chainDom repeatState [3, 4, 2, 8, 9, 10]) \<and>
   distinct (map msg_id (sequence
     (detectMessages (Some ''Kimi'') chainDom (Inr [3, 4, 2, 8, 9, 10]) repeatState))) \<and>
   messages (detectMessages (Some ''Kimi'') chainDom (Inr [3, 4, 2, 8, 9, 10]) repeatState) =
     [1, 4, 10]"
proof -
  let ?pass = "[3, 4, 2, 8, 9, 10 :: addr]"
  have h1: "3 \<in> set ?pass \<and> msg_id (heap repeatState 3) \<in> existingIds repeatState"
    by code_simp
  have h2: "distinct (map msg_id (sequence repeatState)) \<and>
    distinct (map (\<lambda>a. msg_id (heap repeatState a)) ?pass)"
    by code_simp
  have h3: "4 \<in> set ?pass \<and> msg_id (heap repeatState 4) \<notin> existingIds repeatState \<and>
      (\<forall>e \<in> set (messages repeatState). role (heap repeatState e) = role (heap repeatState 4) \<longrightarrow>
         (''Kimi'' = ''DeepSeek'' \<or> distinctOrder (heap repeatState e) (heap repeatState 4)) \<and>
         farApart chainDom (heap repeatState e) (heap repeatState 4))"
    by code_simp
  have h4: "10 \<in> set ?pass \<and> msg_id (heap repeatState 10) \<notin> existingIds repeatState \<and>
      (\<forall>e \<in> set (messages repeatState). role (heap repeatState e) = role (heap repeatState 10) \<longrightarrow>
         (''Kimi'' = ''DeepSeek'' \<or> distinctOrder (heap repeatState e) (heap repeatState 10)) \<and>
         farApart chainDom (heap repeatState e) (heap repeatState 10))"
    by code_simp
  have h5: "''Kimi'' \<noteq> ''DeepSeek'' \<and> 1 \<in> set (messages repeatState) \<and>
      sameOrderAndContent (heap repeatState 1) (heap repeatState 2)"
    by code_simp
  have h6: "1 \<in> set (messages repeatState) \<and>
      sameRoleAndElement (heap repeatState 1) (heap repeatState 8)"
    by code_simp
  have h7: "1 \<in> set (messages repeatState) \<and>
      nearDuplicateNearby chainDom (heap repeatState 1) (heap repeatState 9)"
    by code_simp
  have h8: "messages (detectMessages (Some ''Kimi'') chainDom (Inr ?pass) repeatState) = [1, 4, 10]"
    by code_simp
  note T = C1_dedup_amended [of ?pass repeatState "''Kimi''" chainDom]
  from T h1 have c3: "3 \<notin> set (accepted ''Kimi'' chainDom repeatState ?pass)" by blast
  from T h5 have c2: "2 \<notin> set (accepted ''Kimi'' chainDom repeatState ?pass)" by blast
  from T h6 have c8: "8 \<notin> set (accepted ''Kimi'' chainDom repeatState ?pass)" by blast
  from T h7 have c9: "9 \<notin> set (accepted ''Kimi'' chainDom repeatState ?pass)" by blast
  from T h3 have c4: "4 \<in> set (accepted ''Kimi'' chainDom repeatState ?pass)" by blast
  from T h4 have c10: "10 \<in> set (accepted ''Kimi'' chainDom repeatState ?pass)" by blast
  from T h2 have cd: "distinct (map msg_id (sequence
     (detectMessages (Some ''Kimi'') chainDom (Inr ?pass) repeatState)))" by blast
  from c3 c2 c8 c9 c4 c10 cd h8 show ?thesis by (intro conjI)
qed

text \<open>
  C1 as stated fails. The candidate at address 2 has another id, the same role and the
  same content as the existing message, and its element is five ancestor hops away, but
  it carries the same order and is dropped by the first check. And two candidates of one
  pass with the same id are both appended.
\<close>

theorem C1_dedup_counterexample:
  "msg_id (heap repeatState 2) \<noteq> msg_id (heap repeatState 1) \<and>
   role (heap repeatState 2) = role (heap repeatState 1) \<and>
   content (heap repeatState 2) = content (heap repeatState 1) \<and>
   fullContent (heap repeatState 2) = fullContent (heap repeatState 1) \<and>
   element (heap repeatState 1) = Some 10 \<and> element (heap repeatState 2) = Some 20 \<and>
   \<not> withinHops chainDom 3 20 10 \<and> \<not> withinHops chainDom 3 10 20 \<and>
   messages repeatState = [1] \<and>
   messages (detectMessages (Some ''Kimi'') chainDom (Inr [2]) repeatState) = [1] \<and>
   messages sameIdState = [] \<and>
   messages (detectMessages (Some ''Gemini'') chainDom (Inr [1, 2]) sameIdState) = [1, 2] \<and>
   map msg_id (sequence (detectMessages (Some ''Gemini'') chainDom (Inr [1, 2]) sameIdState)) =
     [''msg-gemini-user-r1'', ''msg-gemini-user-r1'']"
  by code_simp

subsection \<open>Existing messages are left alone\<close>

lemma heap_detect:
  "heap (detectMessages (Some name) d (Inr newMessages) st) =
   (if newMessages = [] then heap st else renumbered name st (uniqueById st newMessages))"
  by (simp add: detectMessages_def heap_merge)

lemma renumbered_changed:
  assumes "renumbered name st us a \<noteq> heap st a"
  shows "name = ''DeepSeek'' \<and> a \<in> set us"
proof -
  from assms have n: "name = ''DeepSeek'' \<and> us \<noteq> []"
    by (auto simp: renumbered_def split: if_splits)
  with assms have "renumber (maxExistingOrder st) 0 us (heap st) a \<noteq> heap st a"
    by (simp add: renumbered_def)
  then have "a \<in> set us" using renumber_other by blast
  with n show ?thesis by simp
qed

lemma renumbered_DeepSeek_map:
  assumes "distinct us"
  shows "map (\<lambda>a. order (renumbered ''DeepSeek'' st us a)) us =
         map (\<lambda>i. Some (maxExistingOrder st + 1 + int i)) [0..<length us]"
proof (rule nth_equalityI)
  show "length (map (\<lambda>a. order (renumbered ''DeepSeek'' st us a)) us) =
        length (map (\<lambda>i. Some (maxExistingOrder st + 1 + int i)) [0..<length us])"
    by simp
next
  fix n assume "n < length (map (\<lambda>a. order (renumbered ''DeepSeek'' st us a)) us)"
  then have n: "n < length us" by simp
  then have "us \<noteq> []" by auto
  with renumber_distinct [OF assms n, of "maxExistingOrder st" 0 "heap st"] n
  show "map (\<lambda>a. order (renumbered ''DeepSeek'' st us a)) us ! n =
        map (\<lambda>i. Some (maxExistingOrder st + 1 + int i)) [0..<length us] ! n"
    by (simp add: renumbered_def)
qed

lemma accepted_DeepSeek_order:
  assumes "a \<in> set (accepted ''DeepSeek'' d st newMessages)"
  shows "\<exists>k. order (heap (detectMessages (Some ''DeepSeek'') d (Inr newMessages) st) a) = Some k \<and>
             maxExistingOrder st < k"
proof -
  from assms have u: "a \<in> set (uniqueById st newMessages)"
    by (simp add: accepted_def Let_def)
  then have "newMessages \<noteq> []" by (auto simp: uniqueById_def)
  then have h: "heap (detectMessages (Some ''DeepSeek'') d (Inr newMessages) st) =
      renumbered ''DeepSeek'' st (uniqueById st newMessages)" by (simp add: heap_detect)
  from renumbered_DeepSeek_order [OF u, of st] obtain n where
    "order (renumbered ''DeepSeek'' st (uniqueById st newMessages) a) =
       Some (maxExistingOrder st + 1 + int n)" by blast
  with h show ?thesis by simp
qed

lemma accepted_uniqueById: "set (accepted name d st newMessages) \<subseteq> set (uniqueById st newMessages)"
  by (auto simp: accepted_def Let_def)

text \<open>
  C3, as amended. A pass leaves every message of the sequence as it was: the store is
  unchanged at the address of every existing message, and the new array consists of the
  old one and the accepted candidates. The store changes only for DeepSeek and only at
  candidates whose id is new, none of which is an existing message. The renumbering
  comes before the near-duplicate suppression: every candidate whose id is new, accepted
  or not, receives (when the adapter's objects are distinct) its order among
  \<open>max + 1, max + 2, \<dots>\<close> in the sequence of these candidates, where \<open>max\<close> bounds the
  order of every existing message. The accepted candidates are among them, so that for
  DeepSeek every accepted candidate has an order past \<open>max\<close>.
\<close>

theorem C3_renumbering_amended:
  "(\<forall>a \<in> set (messages st).
      heap (detectMessages (Some name) d (Inr newMessages) st) a = heap st a) \<and>
   mset (messages (detectMessages (Some name) d (Inr newMessages) st)) =
     mset (messages st) + mset (accepted name d st newMessages) \<and>
   (\<forall>a. heap (detectMessages (Some name) d (Inr newMessages) st) a \<noteq> heap st a \<longrightarrow>
      name = ''DeepSeek'' \<and> a \<in> set (uniqueById st newMessages) \<and> a \<notin> set (messages st)) \<and>
   (name = ''DeepSeek'' \<and> distinct newMessages \<longrightarrow>
      map (\<lambda>a. order (heap (detectMessages (Some name) d (Inr newMessages) st) a))
          (uniqueById st newMessages) =
      map (\<lambda>i. Some (maxExistingOrder st + 1 + int i)) [0..<length (uniqueById st newMessages)]) \<and>
   (\<forall>e \<in> set (messages st). \<forall>j. order (heap st e) = Some j \<longrightarrow> j \<le> maxExistingOrder st) \<and>
   set (accepted name d st newMessages) \<subseteq> set (uniqueById st newMessages) \<and>
   (name = ''DeepSeek'' \<longrightarrow>
      (\<forall>a \<in> set (accepted name d st newMessages).
         \<exists>k. order (heap (detectMessages (Some name) d (Inr newMessages) st) a) = Some k \<and>
             maxExistingOrder st < k))"
proof (intro conjI ballI allI impI)
  fix a assume "a \<in> set (messages st)"
  then show "heap (detectMessages (Some name) d (Inr newMessages) st) a = heap st a"
    by (simp add: heap_detect renumbered_existing)
next
  show "mset (messages (detectMessages (Some name) d (Inr newMessages) st)) =
     mset (messages st) + mset (accepted name d st newMessages)"
    by (simp add: detectMessages_def messages_merge)
next
  fix a assume ne: "heap (detectMessages (Some name) d (Inr newMessages) st) a \<noteq> heap st a"
  then have "renumbered name st (uniqueById st newMessages) a \<noteq> heap st a"
    by (simp add: heap_detect split: if_splits)
  then have *: "name = ''DeepSeek'' \<and> a \<in> set (uniqueById st newMessages)"
    by (rule renumbered_changed)
  then show "name = ''DeepSeek''" "a \<in> set (uniqueById st newMessages)" by simp_all
  from * show "a \<notin> set (messages st)" using uniqueById_not_existing by blast
next
  assume h: "name = ''DeepSeek'' \<and> distinct newMessages"
  then have d: "distinct (uniqueById st newMessages)" by (simp add: uniqueById_def)
  show "map (\<lambda>a. order (heap (detectMessages (Some name) d (Inr newMessages) st) a))
          (uniqueById st newMessages) =
      map (\<lambda>i. Some (maxExistingOrder st + 1 + int i)) [0..<length (uniqueById st newMessages)]"
  proof (cases "newMessages = []")
    case True
    then show ?thesis by (simp add: uniqueById_def)
  next
    case False
    with h renumbered_DeepSeek_map [OF d, of st] show ?thesis
      by (simp add: heap_detect)
  qed
next
  fix e j assume "e \<in> set (messages st)" "order (heap st e) = Some j"
  then show "j \<le> maxExistingOrder st" by (rule maxExistingOrder_ge)
next
  show "set (accepted name d st newMessages) \<subseteq> set (uniqueById st newMessages)"
    by (rule accepted_uniqueById)
next
  fix a assume "name = ''DeepSeek''" "a \<in> set (accepted name d st newMessages)"
  then show "\<exists>k. order (heap (detectMessages (Some name) d (Inr newMessages) st) a) = Some k \<and>
             maxExistingOrder st < k"
    using accepted_DeepSeek_order [of a d st newMessages] by simp
qed

text \<open>
  The amended statement on a DeepSeek pass of four candidates. The first repeats the id
  of the existing message and keeps its order; the other three are renumbered 5, 6, 7
  past the existing order 4; of these the last, on the element of the existing message,
  is then suppressed, and the two others are appended.
\<close>

theorem C3_renumbering_amended_witness:
  "heap (detectMessages (Some ''DeepSeek'') chainDom (Inr [2, 3, 4, 5]) deepSeekState) 1 =
     heap deepSeekState 1 \<and>
   messages (detectMessages (Some ''DeepSeek'') chainDom (Inr [2, 3, 4, 5]) deepSeekState) = [1, 3, 4] \<and>
   uniqueById deepSeekState [2, 3, 4, 5] = [3, 4, 5] \<and>
   accepted ''DeepSeek'' chainDom deepSeekState [2, 3, 4, 5] = [3, 4] \<and>
   map (\<lambda>a. order (heap (detectMessages (Some ''DeepSeek'') chainDom (Inr [2, 3, 4, 5]) deepSeekState) a))
     [3, 4, 5] = [Some 5, Some 6, Some 7] \<and>
   order (heap (detectMessages (Some ''DeepSeek'') chainDom (Inr [2, 3, 4, 5]) deepSeekState) 2) =
     Some 0 \<and>
   maxExistingOrder deepSeekState = 4 \<and>
   order (heap deepSeekState 1) = Some 4"
proof -
  let ?pass = "[2, 3, 4, 5 :: addr]"
  let ?after = "detectMessages (Some ''DeepSeek'') chainDom (Inr ?pass) deepSeekState"
  have h1: "1 \<in> set (messages deepSeekState)" by code_simp
  have h2: "''DeepSeek'' = ''DeepSeek'' \<and> distinct ?pass" by simp
  have h3: "order (heap deepSeekState 1) = Some 4" by code_simp
  have h4: "2 \<notin> set (uniqueById deepSeekState ?pass)" by code_simp
  have h5: "order (heap deepSeekState 2) = Some 0" by code_simp
  have e1: "uniqueById deepSeekState ?pass = [3, 4, 5]" by code_simp
  have e2: "maxExistingOrder deepSeekState = 4" by code_simp
  have e3: "messages ?after = [1, 3, 4]" by code_simp
  have e4: "map (\<lambda>i. Some (4 + 1 + int i)) [0..<length [3, 4, 5 :: addr]] = [Some 5, Some 6, Some 7]"
    by code_simp
  have e5: "accepted ''DeepSeek'' chainDom deepSeekState ?pass = [3, 4]" by code_simp
  note T = C3_renumbering_amended [of deepSeekState "''DeepSeek''" chainDom ?pass]
  from T h1 have c1: "heap ?after 1 = heap deepSeekState 1" by blast
  from T h2 have "map (\<lambda>a. order (heap ?after a)) (uniqueById deepSeekState ?pass) =
      map (\<lambda>i. Some (maxExistingOrder deepSeekState + 1 + int i))
          [0..<length (uniqueById deepSeekState ?pass)]" by blast
  then have c2: "map (\<lambda>a. order (heap ?after a)) [3, 4, 5] = [Some 5, Some 6, Some 7]"
    unfolding e1 e2 e4 .
  from T h4 have "heap ?after 2 = heap deepSeekState 2" by blast
  with h5 have c3: "order (heap ?after 2) = Some 0" by simp
  have a3: "''DeepSeek'' = ''DeepSeek'' \<and> 3 \<in> set (accepted ''DeepSeek'' chainDom deepSeekState ?pass)"
    by (simp add: e5)
  from T a3 have "\<exists>k. order (heap ?after 3) = Some k \<and> maxExistingOrder deepSeekState < k"
    by blast
  from c1 e3 e1 e5 c2 c3 e2 h3 show ?thesis by (intro conjI)
qed

text \<open>
  C3 as stated fails. The candidate at address 5 has a new id and the element of the
  existing message. The pass renumbers it from 0 to 5 and then suppresses it: it is not
  accepted, the sequence is as it was, and its order has been rewritten.
\<close>

theorem C3_renumbering_counterexample:
  "messages deepSeekState = [1] \<and>
   msg_id (heap deepSeekState 5) \<notin> existingIds deepSeekState \<and>
   order (heap deepSeekState 5) = Some 0 \<and>
   accepted ''DeepSeek'' chainDom deepSeekState [5] = [] \<and>
   messages (detectMessages (Some ''DeepSeek'') chainDom (Inr [5]) deepSeekState) = [1] \<and>
   order (heap (detectMessages (Some ''DeepSeek'') chainDom (Inr [5]) deepSeekState) 5) = Some 5"
  by code_simp

subsection \<open>Sorting\<close>

lemma compareMessages_le_iff: "compareMessages d a b \<le> 0 \<longleftrightarrow> sortedBefore d a b"
proof (cases "order a")
  case (Some x)
  then show ?thesis
    by (cases "order b") (simp_all add: compareMessages_def sortedBefore_def)
next
  case None
  show ?thesis
  proof (cases "order b")
    case (Some y)
    with None show ?thesis by (simp add: compareMessages_def sortedBefore_def)
  next
    case nb: None
    show ?thesis
    proof (cases "element a")
      case na: None
      with None nb show ?thesis by (simp add: compareMessages_def sortedBefore_def)
    next
      case (Some ea)
      show ?thesis
      proof (cases "element b")
        case ne: None
        with None nb Some show ?thesis by (simp add: compareMessages_def sortedBefore_def)
      next
        case eb: (Some eb)
        with None nb Some show ?thesis
          by (simp add: compareMessages_def sortedBefore_def compareDocumentPosition_def)
      qed
    qed
  qed
qed

lemma sortedBefore_ordered: "sortedBefore d a b \<Longrightarrow> orderedBefore a b"
  by (auto simp: sortedBefore_def orderedBefore_def split: option.splits)

lemma not_sortedBefore_ordered: "\<not> sortedBefore d a b \<Longrightarrow> orderedBefore b a"
  by (auto simp: sortedBefore_def orderedBefore_def split: option.splits)

lemma orderedBefore_trans: "orderedBefore a b \<Longrightarrow> orderedBefore b c \<Longrightarrow> orderedBefore a c"
  by (auto simp: orderedBefore_def split: option.splits)

lemma set_insertSorted: "set (insertSorted cmp x ys) = insert x (set ys)"
  by (induction ys) auto

lemma sorted_wrt_insertSorted:
  assumes "sorted_wrt R ys"
    and "\<And>y. y \<in> set ys \<Longrightarrow> cmp x y \<le> 0 \<Longrightarrow> R x y"
    and "\<And>y. y \<in> set ys \<Longrightarrow> \<not> cmp x y \<le> 0 \<Longrightarrow> R y x"
    and "\<And>y z. y \<in> set ys \<Longrightarrow> z \<in> set ys \<Longrightarrow> R x y \<Longrightarrow> R y z \<Longrightarrow> R x z"
  shows "sorted_wrt R (insertSorted cmp x ys)"
  using assms
proof (induction ys)
  case Nil
  then show ?case by simp
next
  case (Cons y ys)
  show ?case
  proof (cases "cmp x y \<le> 0")
    case True
    then have xy: "R x y" using Cons.prems(2) by simp
    have "R x z" if "z \<in> set ys" for z
      using Cons.prems(4) [of y z] that xy Cons.prems(1) by simp
    with True xy Cons.prems(1) show ?thesis by simp
  next
    case False
    then have yx: "R y x" using Cons.prems(3) by simp
    have "sorted_wrt R (insertSorted cmp x ys)"
    proof (rule Cons.IH)
      from Cons.prems(1) show "sorted_wrt R ys" by simp
    qed (use Cons.prems in auto)
    with False yx Cons.prems(1) show ?thesis by (simp add: set_insertSorted)
  qed
qed

lemma sorted_wrt_sortBy:
  assumes le: "\<And>x y. x \<in> set xs \<Longrightarrow> y \<in> set xs \<Longrightarrow> cmp x y \<le> 0 \<Longrightarrow> R x y"
    and total: "\<And>x y. x \<in> set xs \<Longrightarrow> y \<in> set xs \<Longrightarrow> \<not> cmp x y \<le> 0 \<Longrightarrow> R y x"
    and trans: "\<And>x y z. x \<in> set xs \<Longrightarrow> y \<in> set xs \<Longrightarrow> z \<in> set xs \<Longrightarrow> R x y \<Longrightarrow> R y z \<Longrightarrow> R x z"
  shows "sorted_wrt R (sortBy cmp xs)"
  using assms
proof (induction xs)
  case Nil
  show ?case by (simp add: sortBy_def)
next
  case (Cons x xs)
  have IH: "sorted_wrt R (sortBy cmp xs)"
  proof (rule Cons.IH)
    fix a b assume "a \<in> set xs" "b \<in> set xs" "cmp a b \<le> 0"
    then show "R a b" using Cons.prems(1) [of a b] by simp
  next
    fix a b assume "a \<in> set xs" "b \<in> set xs" "\<not> cmp a b \<le> 0"
    then show "R b a" using Cons.prems(2) [of a b] by simp
  next
    fix a b c assume "a \<in> set xs" "b \<in> set xs" "c \<in> set xs" "R a b" "R b c"
    then show "R a c" using Cons.prems(3) [of a b c] by simp
  qed
  have "sorted_wrt R (insertSorted cmp x (sortBy cmp xs))"
  proof (rule sorted_wrt_insertSorted [OF IH])
    fix y assume "y \<in> set (sortBy cmp xs)" "cmp x y \<le> 0"
    then show "R x y" using Cons.prems(1) [of x y] by (simp add: set_sortBy)
  next
    fix y assume "y \<in> set (sortBy cmp xs)" "\<not> cmp x y \<le> 0"
    then show "R y x" using Cons.prems(2) [of x y] by (simp add: set_sortBy)
  next
    fix y z assume "y \<in> set (sortBy cmp xs)" "z \<in> set (sortBy cmp xs)" "R x y" "R y z"
    then show "R x z" using Cons.prems(3) [of x y z] by (simp add: set_sortBy)
  qed
  then show ?case by (simp add: sortBy_def)
qed

lemma filter_insertSorted:
  assumes "\<And>y. y \<in> set ys \<Longrightarrow> P x \<Longrightarrow> P y \<Longrightarrow> cmp x y \<le> 0"
  shows "filter P (insertSorted cmp x ys) = filter P (x # ys)"
  using assms
proof (induction ys)
  case Nil
  then show ?case by simp
next
  case (Cons y ys)
  show ?case
  proof (cases "cmp x y \<le> 0")
    case True
    then show ?thesis by simp
  next
    case False
    then have nP: "\<not> (P x \<and> P y)" using Cons.prems [of y] by auto
    have "filter P (insertSorted cmp x ys) = filter P (x # ys)"
      by (rule Cons.IH) (use Cons.prems in auto)
    with False nP show ?thesis by auto
  qed
qed

lemma filter_sortBy:
  assumes "\<And>x y. x \<in> set xs \<Longrightarrow> y \<in> set xs \<Longrightarrow> P x \<Longrightarrow> P y \<Longrightarrow> cmp x y \<le> 0"
  shows "filter P (sortBy cmp xs) = filter P xs"
  using assms
proof (induction xs)
  case Nil
  show ?case by (simp add: sortBy_def)
next
  case (Cons x xs)
  have IH: "filter P (sortBy cmp xs) = filter P xs"
    by (rule Cons.IH) (use Cons.prems in auto)
  have "filter P (insertSorted cmp x (sortBy cmp xs)) = filter P (x # sortBy cmp xs)"
    by (rule filter_insertSorted) (use Cons.prems [of x] in \<open>auto simp: set_sortBy\<close>)
  with IH show ?case by (simp add: sortBy_def)
qed

lemma sortedBefore_trans:
  assumes "positionsConsistent d ms" "a \<in> set ms" "b \<in> set ms" "c \<in> set ms"
    and ab: "sortedBefore d a b" and bc: "sortedBefore d b c"
  shows "sortedBefore d a c"
proof -
  have el: "\<And>m. m \<in> set ms \<Longrightarrow> order m = None \<Longrightarrow> \<exists>e. element m = Some e"
    using assms(1) by (auto simp: positionsConsistent_def)
  show ?thesis
  proof (cases "order a = None \<and> order b = None \<and> order c = None")
    case False
    with ab bc show ?thesis
      by (cases "order a"; cases "order b"; cases "order c") (simp_all add: sortedBefore_def)
  next
    case True
    from True el [OF assms(2)] obtain ea where ea: "element a = Some ea" by blast
    from True el [OF assms(3)] obtain eb where eb: "element b = Some eb" by blast
    from True el [OF assms(4)] obtain ec where ec: "element c = Some ec" by blast
    note e = ea eb ec
    from ab True e have 1: "docIndex d ea < docIndex d eb \<or> (ea = eb \<and> timestamp a \<le> timestamp b)"
      by (simp add: sortedBefore_def)
    from bc True e have 2: "docIndex d eb < docIndex d ec \<or> (eb = ec \<and> timestamp b \<le> timestamp c)"
      by (simp add: sortedBefore_def)
    from 1 2 have "docIndex d ea < docIndex d ec \<or> (ea = ec \<and> timestamp a \<le> timestamp c)"
      by auto
    with True e show ?thesis by (simp add: sortedBefore_def)
  qed
qed

lemma sortedBefore_total:
  assumes "positionsConsistent d ms" "a \<in> set ms" "b \<in> set ms" "\<not> sortedBefore d a b"
  shows "sortedBefore d b a"
proof -
  have el: "\<And>m. m \<in> set ms \<Longrightarrow> order m = None \<Longrightarrow> \<exists>e. element m = Some e"
    using assms(1) by (auto simp: positionsConsistent_def)
  have inj: "\<And>m n x y. m \<in> set ms \<Longrightarrow> n \<in> set ms \<Longrightarrow> element m = Some x \<Longrightarrow> element n = Some y \<Longrightarrow>
      docIndex d x = docIndex d y \<Longrightarrow> x = y"
    using assms(1) unfolding positionsConsistent_def by fastforce
  show ?thesis
  proof (cases "order a = None \<and> order b = None")
    case False
    with assms(4) show ?thesis
      by (auto simp: sortedBefore_def split: option.splits)
  next
    case True
    from True el [OF assms(2)] obtain ea where ea: "element a = Some ea" by blast
    from True el [OF assms(3)] obtain eb where eb: "element b = Some eb" by blast
    note e = ea eb
    from inj [OF assms(2,3) e] have "docIndex d ea = docIndex d eb \<Longrightarrow> ea = eb" .
    with True e assms(4) show ?thesis
      by (auto simp: sortedBefore_def)
  qed
qed

lemma merge_accepting:
  assumes "accepted name d st newMessages \<noteq> []"
  shows "messages (mergeNewMessages name d newMessages st) =
           sortBy (\<lambda>a b. compareMessages d
                            (renumbered name st (uniqueById st newMessages) a)
                            (renumbered name st (uniqueById st newMessages) b))
                  (messages st @ accepted name d st newMessages)"
    and "heap (mergeNewMessages name d newMessages st) =
           renumbered name st (uniqueById st newMessages)"
proof -
  from assms have "newMessages \<noteq> []" by auto
  with assms show "messages (mergeNewMessages name d newMessages st) =
           sortBy (\<lambda>a b. compareMessages d
                            (renumbered name st (uniqueById st newMessages) a)
                            (renumbered name st (uniqueById st newMessages) b))
                  (messages st @ accepted name d st newMessages)"
    by (simp add: mergeNewMessages_def Let_def)
  from \<open>newMessages \<noteq> []\<close> show "heap (mergeNewMessages name d newMessages st) =
           renumbered name st (uniqueById st newMessages)"
    by (simp add: heap_merge)
qed

lemma sorted_sequence_sortBy:
  fixes h :: "addr \<Rightarrow> message"
  shows "sorted_wrt orderedBefore (map h (sortBy (\<lambda>a b. compareMessages d (h a) (h b)) xs))"
proof -
  have "sorted_wrt (\<lambda>a b. orderedBefore (h a) (h b)) (sortBy (\<lambda>a b. compareMessages d (h a) (h b)) xs)"
  proof (rule sorted_wrt_sortBy)
    fix x y assume "compareMessages d (h x) (h y) \<le> 0"
    then show "orderedBefore (h x) (h y)"
      by (simp add: compareMessages_le_iff sortedBefore_ordered)
  next
    fix x y assume "\<not> compareMessages d (h x) (h y) \<le> 0"
    then show "orderedBefore (h y) (h x)"
      by (simp add: compareMessages_le_iff not_sortedBefore_ordered)
  next
    fix x y z assume "orderedBefore (h x) (h y)" "orderedBefore (h y) (h z)"
    then show "orderedBefore (h x) (h z)" by (rule orderedBefore_trans)
  qed
  then show ?thesis by (simp add: sorted_wrt_map)
qed

lemma stable_sequence_sortBy:
  fixes h :: "addr \<Rightarrow> message"
  shows "filter (\<lambda>m. order m = Some k) (map h (sortBy (\<lambda>a b. compareMessages d (h a) (h b)) xs)) =
         filter (\<lambda>m. order m = Some k) (map h xs)"
proof -
  have "filter (\<lambda>a. order (h a) = Some k) (sortBy (\<lambda>a b. compareMessages d (h a) (h b)) xs) =
        filter (\<lambda>a. order (h a) = Some k) xs"
  proof (rule filter_sortBy)
    fix x y assume "order (h x) = Some k" "order (h y) = Some k"
    then show "compareMessages d (h x) (h y) \<le> 0" by (simp add: compareMessages_def)
  qed
  then show ?thesis by (simp add: filter_map comp_def)
qed

lemma fully_sorted_sequence_sortBy:
  fixes h :: "addr \<Rightarrow> message"
  assumes "positionsConsistent d (map h xs)"
  shows "sorted_wrt (sortedBefore d) (map h (sortBy (\<lambda>a b. compareMessages d (h a) (h b)) xs))"
proof -
  have "sorted_wrt (\<lambda>a b. sortedBefore d (h a) (h b)) (sortBy (\<lambda>a b. compareMessages d (h a) (h b)) xs)"
  proof (rule sorted_wrt_sortBy)
    fix x y assume "compareMessages d (h x) (h y) \<le> 0"
    then show "sortedBefore d (h x) (h y)" by (simp add: compareMessages_le_iff)
  next
    fix x y assume "x \<in> set xs" "y \<in> set xs" "\<not> compareMessages d (h x) (h y) \<le> 0"
    then show "sortedBefore d (h y) (h x)"
      using sortedBefore_total [OF assms, of "h x" "h y"] by (simp add: compareMessages_le_iff)
  next
    fix x y z assume "x \<in> set xs" "y \<in> set xs" "z \<in> set xs"
      "sortedBefore d (h x) (h y)" "sortedBefore d (h y) (h z)"
    then show "sortedBefore d (h x) (h z)"
      using sortedBefore_trans [OF assms, of "h x" "h y" "h z"] by simp
  qed
  then show ?thesis by (simp add: sorted_wrt_map)
qed

lemma positionsConsistent_cong:
  "set ms = set ms' \<Longrightarrow> positionsConsistent d ms = positionsConsistent d ms'"
  by (simp add: positionsConsistent_def)

text \<open>
  C2, as amended. After a pass that accepts a candidate the sequence is a rearrangement
  of the old sequence followed by the accepted candidates in which the messages with an
  order stand in ascending order before the messages without one; messages with the same
  order keep the relative position they had in the old sequence followed by the accepted
  candidates (document position is not consulted for them); and if every message without
  order has an element and distinct elements have distinct document positions, the
  messages without order stand in ascending document position, those of one element in
  ascending timestamp.
\<close>

theorem C2_sorted_amended:
  "accepted name d st newMessages \<noteq> [] \<longrightarrow>
     mset (messages (detectMessages (Some name) d (Inr newMessages) st)) =
       mset (messages st @ accepted name d st newMessages) \<and>
     sorted_wrt orderedBefore (sequence (detectMessages (Some name) d (Inr newMessages) st)) \<and>
     (\<forall>k. filter (\<lambda>m. order m = Some k)
             (sequence (detectMessages (Some name) d (Inr newMessages) st)) =
           filter (\<lambda>m. order m = Some k)
             (map (heap (detectMessages (Some name) d (Inr newMessages) st))
                  (messages st @ accepted name d st newMessages))) \<and>
     (positionsConsistent d (sequence (detectMessages (Some name) d (Inr newMessages) st)) \<longrightarrow>
        sorted_wrt (sortedBefore d)
          (sequence (detectMessages (Some name) d (Inr newMessages) st)))"
proof
  assume acc: "accepted name d st newMessages \<noteq> []"
  let ?st' = "detectMessages (Some name) d (Inr newMessages) st"
  let ?h = "renumbered name st (uniqueById st newMessages)"
  let ?xs = "messages st @ accepted name d st newMessages"
  have m: "messages ?st' = sortBy (\<lambda>a b. compareMessages d (?h a) (?h b)) ?xs"
    and h: "heap ?st' = ?h"
    using merge_accepting [OF acc] by (simp_all add: detectMessages_def)
  have s: "sequence ?st' = map ?h (sortBy (\<lambda>a b. compareMessages d (?h a) (?h b)) ?xs)"
    by (simp add: sequence_def m h)
  have 1: "mset (messages ?st') = mset ?xs" by (simp add: m mset_sortBy)
  have 2: "sorted_wrt orderedBefore (sequence ?st')"
    unfolding s by (rule sorted_sequence_sortBy)
  have 3: "filter (\<lambda>m. order m = Some k) (sequence ?st') =
           filter (\<lambda>m. order m = Some k) (map (heap ?st') ?xs)" for k
    unfolding s h by (rule stable_sequence_sortBy)
  have 4: "sorted_wrt (sortedBefore d) (sequence ?st')" if pc: "positionsConsistent d (sequence ?st')"
  proof -
    have "set (sequence ?st') = set (map ?h ?xs)" by (simp add: s set_sortBy image_Un)
    with pc have "positionsConsistent d (map ?h ?xs)"
      using positionsConsistent_cong by blast
    then show ?thesis unfolding s by (rule fully_sorted_sequence_sortBy)
  qed
  from 1 2 3 4 show "mset (messages ?st') = mset ?xs \<and>
     sorted_wrt orderedBefore (sequence ?st') \<and>
     (\<forall>k. filter (\<lambda>m. order m = Some k) (sequence ?st') =
           filter (\<lambda>m. order m = Some k) (map (heap ?st') ?xs)) \<and>
     (positionsConsistent d (sequence ?st') \<longrightarrow> sorted_wrt (sortedBefore d) (sequence ?st'))"
    by blast
qed

text \<open>
  The amended statement at two candidates without order: they are put in document order.
\<close>

theorem C2_sorted_amended_witness:
  "accepted ''ChatGPT'' chainDom orderlessState [1, 2] = [1, 2] \<and>
   positionsConsistent chainDom
     (sequence (detectMessages (Some ''ChatGPT'') chainDom (Inr [1, 2]) orderlessState)) \<and>
   messages (detectMessages (Some ''ChatGPT'') chainDom (Inr [1, 2]) orderlessState) = [2, 1] \<and>
   sorted_wrt (sortedBefore chainDom)
     (sequence (detectMessages (Some ''ChatGPT'') chainDom (Inr [1, 2]) orderlessState)) \<and>
   sorted_wrt orderedBefore
     (sequence (detectMessages (Some ''ChatGPT'') chainDom (Inr [1, 2]) orderlessState))"
proof -
  have a: "accepted ''ChatGPT'' chainDom orderlessState [1, 2] = [1, 2]" by code_simp
  then have h1: "accepted ''ChatGPT'' chainDom orderlessState [1, 2] \<noteq> []" by simp
  have h2: "positionsConsistent chainDom
     (sequence (detectMessages (Some ''ChatGPT'') chainDom (Inr [1, 2]) orderlessState))"
    by code_simp
  have m: "messages (detectMessages (Some ''ChatGPT'') chainDom (Inr [1, 2]) orderlessState) = [2, 1]"
    by code_simp
  from C2_sorted_amended [of "''ChatGPT''" chainDom orderlessState "[1, 2]"] h1 h2 a m
  show ?thesis by blast
qed

text \<open>
  C2 as stated fails. The existing message (node 10) and the accepted candidate (node 5)
  both have order 0; the candidate precedes the existing message in the document but
  follows it in the sequence, which is therefore not sorted by the order of the
  specification.
\<close>

theorem C2_sorted_counterexample:
  "accepted ''Kimi'' chainDom historyState [2, 3] = [2] \<and>
   messages (detectMessages (Some ''Kimi'') chainDom (Inr [2, 3]) historyState) = [1, 2] \<and>
   map order (sequence (detectMessages (Some ''Kimi'') chainDom (Inr [2, 3]) historyState)) =
     [Some 0, Some 0] \<and>
   map element (sequence (detectMessages (Some ''Kimi'') chainDom (Inr [2, 3]) historyState)) =
     [Some 10, Some 5] \<and>
   docIndex chainDom 5 < docIndex chainDom 10 \<and>
   \<not> sorted_wrt (specBefore chainDom)
        (sequence (detectMessages (Some ''Kimi'') chainDom (Inr [2, 3]) historyState))"
  by code_simp

subsection \<open>Idempotence\<close>

lemma stripTimestamp_fields:
  assumes "stripTimestamp n = stripTimestamp n'"
  shows "msg_id n = msg_id n'" "role n = role n'" "content n = content n'"
    "fullContent n = fullContent n'" "element n = element n'" "order n = order n'"
  using assms by (cases n; cases n'; simp add: stripTimestamp_def)+

lemma normalizedContent_cong:
  "content n = content n' \<Longrightarrow> fullContent n = fullContent n' \<Longrightarrow>
   normalizedContent n = normalizedContent n'"
  by (simp add: normalizedContent_def)

lemma returnsFalse_cong:
  assumes "role n = role n'" "content n = content n'" "fullContent n = fullContent n'"
    "element n = element n'" "order n = order n'"
  shows "returnsFalse d e n = returnsFalse d e n'"
  unfolding returnsFalse_def sameElement_def normalizedContent_cong [OF assms(2,3)] assms(1,4,5)
  by (rule refl)

lemma returnsFalse_order_None:
  assumes "returnsFalse d e (n\<lparr>order := None\<rparr>)"
  shows "returnsFalse d e (n\<lparr>order := k\<rparr>)"
proof -
  have nc: "normalizedContent (n\<lparr>order := None\<rparr>) = normalizedContent (n\<lparr>order := k\<rparr>)"
    by (simp add: normalizedContent_def)
  from assms show ?thesis
    unfolding returnsFalse_def sameElement_def nc
    by (simp split: if_splits)
qed

lemma returnsFalse_order_fresh:
  assumes "returnsFalse d e (n\<lparr>order := Some k\<rparr>)" and "order e \<noteq> Some k"
  shows "returnsFalse d e (n\<lparr>order := None\<rparr>)"
proof -
  have nc: "normalizedContent (n\<lparr>order := None\<rparr>) = normalizedContent (n\<lparr>order := Some k\<rparr>)"
    by (simp add: normalizedContent_def)
  from assms show ?thesis
    unfolding returnsFalse_def sameElement_def nc
    by (simp split: if_splits)
qed


lemma messages_detect_set:
  "set (messages (detectMessages (Some name) d (Inr newMessages) st)) =
   set (messages st) \<union> set (accepted name d st newMessages)"
proof -
  have "mset (messages (detectMessages (Some name) d (Inr newMessages) st)) =
        mset (messages st) + mset (accepted name d st newMessages)"
    by (simp add: detectMessages_def messages_merge)
  then have "set_mset (mset (messages (detectMessages (Some name) d (Inr newMessages) st))) =
        set_mset (mset (messages st) + mset (accepted name d st newMessages))"
    by simp
  then show ?thesis by simp
qed

lemma heap_detect_existing:
  "a \<in> set (messages st) \<Longrightarrow>
   heap (detectMessages (Some name) d (Inr newMessages) st) a = heap st a"
  by (simp add: heap_detect renumbered_existing)

lemma msg_id_heap_detect:
  "msg_id (heap (detectMessages (Some name) d (Inr newMessages) st) a) = msg_id (heap st a)"
  by (simp add: detectMessages_def msg_id_heap_merge)

lemma rejected_candidate:
  assumes "c \<in> set (uniqueById st newMessages)"
    and "c \<notin> set (accepted name d st newMessages)"
  shows "\<exists>e \<in> set (messages st).
           returnsFalse d (heap st e) (renumbered name st (uniqueById st newMessages) c)"
proof -
  let ?h = "renumbered name st (uniqueById st newMessages)"
  from assms have "\<not> keepCandidate d (map ?h (messages st)) (?h c)"
    by (simp add: accepted_def Let_def)
  then obtain e where e: "e \<in> set (messages st)" "returnsFalse d (?h e) (?h c)"
    by (auto simp: keepCandidate_iff)
  from e(1) have "?h e = heap st e" by (rule renumbered_existing)
  with e show ?thesis by auto
qed

lemma keepCandidate_map_iff:
  "keepCandidate d (map h xs) n \<longleftrightarrow> (\<forall>a \<in> set xs. \<not> returnsFalse d (h a) n)"
  by (simp add: keepCandidate_iff)

lemma messages_detect_none_accepted:
  "accepted name d st newMessages = [] \<Longrightarrow>
   messages (detectMessages (Some name) d (Inr newMessages) st) = messages st"
  by (simp add: detectMessages_def mergeNewMessages_def Let_def)

lemma second_pass_rejects:
  assumes frame: "\<forall>a \<in> set (messages (detectMessages (Some name) d (Inr cands1) st0)).
             h2 a = heap (detectMessages (Some name) d (Inr cands1) st0) a"
    and same: "map (\<lambda>a. stripTimestamp (h2 a)) cands2 =
               map (\<lambda>a. stripTimestamp (heap st0 a)) cands1"
  shows "accepted name d ((detectMessages (Some name) d (Inr cands1) st0)\<lparr>heap := h2\<rparr>) cands2 = []"
proof -
  let ?st1 = "detectMessages (Some name) d (Inr cands1) st0"
  let ?st2 = "?st1\<lparr>heap := h2\<rparr>"
  let ?acc1 = "accepted name d st0 cands1"
  let ?u1 = "uniqueById st0 cands1"
  let ?u2 = "uniqueById ?st2 cands2"
  let ?h1 = "renumbered name st0 ?u1"
  let ?h2 = "renumbered name ?st2 ?u2"
  have ms: "set (messages ?st2) = set (messages st0) \<union> set ?acc1"
    by (simp add: messages_detect_set)
  have old: "h2 e = heap st0 e" if "e \<in> set (messages st0)" for e
  proof -
    from that have "e \<in> set (messages ?st1)" by (simp add: messages_detect_set)
    with frame have "h2 e = heap ?st1 e" by blast
    with that show ?thesis by (simp add: heap_detect_existing)
  qed
  have ids: "msg_id (h2 a) = msg_id (heap st0 a)" if "a \<in> set (messages ?st1)" for a
  proof -
    from frame that have "h2 a = heap ?st1 a" by blast
    then show ?thesis by (simp add: msg_id_heap_detect)
  qed
  have "\<not> keepCandidate d (map ?h2 (messages ?st2)) (?h2 c2)" if c2: "c2 \<in> set ?u2" for c2
  proof -
    from c2 have c2in: "c2 \<in> set cands2" and c2new: "msg_id (h2 c2) \<notin> existingIds ?st2"
      by (simp_all add: uniqueById_def)
    from c2in have "stripTimestamp (h2 c2) \<in> set (map (\<lambda>a. stripTimestamp (h2 a)) cands2)"
      by simp
    with same have "stripTimestamp (h2 c2) \<in> set (map (\<lambda>a. stripTimestamp (heap st0 a)) cands1)"
      by simp
    then obtain c1 where c1in: "c1 \<in> set cands1"
      and eq: "stripTimestamp (h2 c2) = stripTimestamp (heap st0 c1)"
      by auto
    note f = stripTimestamp_fields [OF eq]
    have notin: "msg_id (heap st0 c1) \<noteq> msg_id (heap st0 a)" if "a \<in> set (messages ?st1)" for a
    proof
      assume "msg_id (heap st0 c1) = msg_id (heap st0 a)"
      with ids [OF that] f(1) have "msg_id (h2 c2) = msg_id (h2 a)" by simp
      with that have "msg_id (h2 c2) \<in> existingIds ?st2" by (auto simp: existingIds_def)
      with c2new show False by simp
    qed
    have "msg_id (heap st0 c1) \<notin> existingIds st0"
      using notin by (auto simp: existingIds_def messages_detect_set)
    with c1in have c1u: "c1 \<in> set ?u1" by (simp add: uniqueById_def)
    have c1rej: "c1 \<notin> set ?acc1"
      using notin [of c1] by (auto simp: messages_detect_set)
    from rejected_candidate [OF c1u c1rej] obtain e where e: "e \<in> set (messages st0)"
      and rf: "returnsFalse d (heap st0 e) (?h1 c1)" by blast
    obtain k2 where k2: "?h2 c2 = (h2 c2)\<lparr>order := k2\<rparr>"
      using renumbered_fields [of name ?st2 ?u2 c2] by auto
    have target: "returnsFalse d (heap st0 e) (?h2 c2)"
    proof (cases "name = ''DeepSeek''")
      case True
      from renumbered_DeepSeek_order [OF c1u, of st0] obtain n
        where n: "order (renumbered ''DeepSeek'' st0 ?u1 c1) = Some (maxExistingOrder st0 + 1 + int n)"
        by blast
      obtain k1 where k1: "?h1 c1 = (heap st0 c1)\<lparr>order := k1\<rparr>"
        using renumbered_fields [of name st0 ?u1 c1] by auto
      with n True have k1': "k1 = Some (maxExistingOrder st0 + 1 + int n)" by simp
      have fresh: "order (heap st0 e) \<noteq> Some (maxExistingOrder st0 + 1 + int n)"
        using maxExistingOrder_ge [OF e, of "maxExistingOrder st0 + 1 + int n"] by auto
      from rf k1 k1' have "returnsFalse d (heap st0 e)
          ((heap st0 c1)\<lparr>order := Some (maxExistingOrder st0 + 1 + int n)\<rparr>)" by simp
      then have "returnsFalse d (heap st0 e) ((heap st0 c1)\<lparr>order := None\<rparr>)"
        using fresh by (rule returnsFalse_order_fresh)
      moreover have "returnsFalse d (heap st0 e) ((heap st0 c1)\<lparr>order := None\<rparr>) =
          returnsFalse d (heap st0 e) ((h2 c2)\<lparr>order := None\<rparr>)"
        by (rule returnsFalse_cong) (simp_all add: f)
      ultimately have "returnsFalse d (heap st0 e) ((h2 c2)\<lparr>order := None\<rparr>)" by simp
      then have "returnsFalse d (heap st0 e) ((h2 c2)\<lparr>order := k2\<rparr>)"
        by (rule returnsFalse_order_None)
      with k2 show ?thesis by simp
    next
      case False
      then have "?h1 = heap st0" "?h2 = heap ?st2" by (simp_all add: renumbered_other_name)
      then have "?h1 c1 = heap st0 c1" "?h2 c2 = h2 c2" by simp_all
      moreover have "returnsFalse d (heap st0 e) (heap st0 c1) =
          returnsFalse d (heap st0 e) (h2 c2)"
        by (rule returnsFalse_cong) (simp_all add: f)
      ultimately show ?thesis using rf by simp
    qed
    from e have e2: "e \<in> set (messages ?st2)" by (simp add: messages_detect_set)
    then have "?h2 e = heap ?st2 e" by (rule renumbered_existing)
    with old [OF e] have "?h2 e = heap st0 e" by simp
    with target have "returnsFalse d (?h2 e) (?h2 c2)" by simp
    with e2 have "\<exists>e \<in> set (messages ?st2). returnsFalse d (?h2 e) (?h2 c2)" by blast
    then show ?thesis unfolding keepCandidate_map_iff by blast
  qed
  then show ?thesis by (simp add: accepted_def Let_def filter_empty_conv)
qed

text \<open>
  C4. Let a pass run on the candidates of the adapter, and let the adapter be called
  again on the unchanged document: it builds candidates that agree with those of the
  first call in every field but the timestamp, and leaves the objects of the sequence
  alone. Then the second pass accepts no candidate, and the sequence after it is the
  sequence after the first pass.
\<close>

theorem C4_second_pass_idempotent:
  assumes "\<forall>a \<in> set (messages (detectMessages (Some name) d (Inr cands1) st0)).
             h2 a = heap (detectMessages (Some name) d (Inr cands1) st0) a"
    and "map (\<lambda>a. stripTimestamp (h2 a)) cands2 =
         map (\<lambda>a. stripTimestamp (heap st0 a)) cands1"
  shows "accepted name d ((detectMessages (Some name) d (Inr cands1) st0)\<lparr>heap := h2\<rparr>) cands2 = [] \<and>
         messages (detectMessages (Some name) d (Inr cands2)
                     ((detectMessages (Some name) d (Inr cands1) st0)\<lparr>heap := h2\<rparr>)) =
           messages (detectMessages (Some name) d (Inr cands1) st0) \<and>
         sequence (detectMessages (Some name) d (Inr cands2)
                     ((detectMessages (Some name) d (Inr cands1) st0)\<lparr>heap := h2\<rparr>)) =
           sequence (detectMessages (Some name) d (Inr cands1) st0)"
proof -
  let ?st1 = "detectMessages (Some name) d (Inr cands1) st0"
  let ?st2 = "?st1\<lparr>heap := h2\<rparr>"
  let ?st3 = "detectMessages (Some name) d (Inr cands2) ?st2"
  have acc: "accepted name d ?st2 cands2 = []"
    using assms by (rule second_pass_rejects)
  then have "messages ?st3 = messages ?st2"
    by (rule messages_detect_none_accepted)
  then have m: "messages ?st3 = messages ?st1" by simp
  have "heap ?st3 a = heap ?st1 a" if "a \<in> set (messages ?st1)" for a
  proof -
    from that have "a \<in> set (messages ?st2)" by simp
    then have "heap ?st3 a = heap ?st2 a" by (rule heap_detect_existing)
    with assms(1) that show ?thesis by simp
  qed
  then have "map (heap ?st3) (messages ?st1) = map (heap ?st1) (messages ?st1)"
    by simp
  with m have "sequence ?st3 = sequence ?st1" by (simp add: sequence_def)
  with acc m show ?thesis by simp
qed

theorem C4_second_pass_idempotent_witness:
  "messages (detectMessages (Some ''Kimi'') chainDom (Inr [2, 4]) repeatState) = [1, 4] \<and>
   accepted ''Kimi'' chainDom
     ((detectMessages (Some ''Kimi'') chainDom (Inr [2, 4]) repeatState)\<lparr>heap := secondPassHeap\<rparr>)
     [6, 7] = [] \<and>
   messages (detectMessages (Some ''Kimi'') chainDom (Inr [6, 7])
     ((detectMessages (Some ''Kimi'') chainDom (Inr [2, 4]) repeatState)\<lparr>heap := secondPassHeap\<rparr>)) =
     [1, 4] \<and>
   sequence (detectMessages (Some ''Kimi'') chainDom (Inr [6, 7])
     ((detectMessages (Some ''Kimi'') chainDom (Inr [2, 4]) repeatState)\<lparr>heap := secondPassHeap\<rparr>)) =
     sequence (detectMessages (Some ''Kimi'') chainDom (Inr [2, 4]) repeatState)"
proof -
  have m: "messages (detectMessages (Some ''Kimi'') chainDom (Inr [2, 4]) repeatState) = [1, 4]"
    by code_simp
  have h1: "\<forall>a \<in> set (messages (detectMessages (Some ''Kimi'') chainDom (Inr [2, 4]) repeatState)).
      secondPassHeap a = heap (detectMessages (Some ''Kimi'') chainDom (Inr [2, 4]) repeatState) a"
    unfolding m by (simp add: secondPassHeap_def)
  have h2: "map (\<lambda>a. stripTimestamp (secondPassHeap a)) [6, 7] =
      map (\<lambda>a. stripTimestamp (heap repeatState a)) [2, 4]"
    by (simp add: secondPassHeap_def stripTimestamp_def)
  from C4_second_pass_idempotent [OF h1 h2] m show ?thesis by simp
qed

text \<open>
  Gemini's identifier is stable: a second call on the same element returns the
  identifier of the first call, whatever role and fallback hash it is given.
\<close>

lemma getStableId_same_id:
  "fst (getStableId (snd (getStableId attrs (Some e) r f)) (Some e) r' f') =
   fst (getStableId attrs (Some e) r f)"
  by (auto simp: getStableId_def Let_def split: option.splits)

subsection \<open>Adapter failure\<close>

text \<open>
  C7. When the adapter's \<^verbatim>\<open>detectMessages\<close> throws, the pass returns normally: the
  exception is caught and logged, and the store, the array \<^verbatim>\<open>messages\<close> and hence the
  message sequence are what they were before the pass.
\<close>

theorem C7_adapter_failure_atomic:
  "messages (detectMessages platform d (Inl e) st) = messages st \<and>
   heap (detectMessages platform d (Inl e) st) = heap st \<and>
   sequence (detectMessages platform d (Inl e) st) = sequence st \<and>
   detectMessages (Some name) d (Inl e) st = st\<lparr>console := console st + 1\<rparr>"
  by (cases platform) (simp_all add: detectMessages_def sequence_def)

section \<open>Properties of the scheduler\<close>

lemma debounced_streaming:
  assumes "isStreamingAt w = Some f" "messages (engine s) = []" "f (now s)"
  shows "debouncedCallback w s =
     s\<lparr>timers := timers s @ [\<lparr>handle = nextHandle s, due = now s + streamingWait w,
                               callback = StreamingRecheck, period = None\<rparr>],
       nextHandle := nextHandle s + 1, streamingTimeout := Some (nextHandle s)\<rparr>"
  using assms by (simp add: debouncedCallback_def callIsStreaming_def setTimeout_def)

lemma fireNext_single:
  "timers s = [t] \<Longrightarrow> period t = None \<Longrightarrow>
   fireNext w s = Some (runCallback w (callback t) (s\<lparr>now := max (now s) (due t), timers := []\<rparr>))"
  by (simp add: fireNext_def)

lemma recheck_not_streaming:
  "isStreamingAt w = Some f \<Longrightarrow> \<not> f (now s) \<Longrightarrow> streamingRecheck w s = runDetect w s"
  by (simp add: streamingRecheck_def callIsStreaming_def)

lemma recheck_streaming:
  "isStreamingAt w = Some f \<Longrightarrow> f (now s) \<Longrightarrow>
   streamingRecheck w s =
     s\<lparr>timers := timers s @ [\<lparr>handle = nextHandle s, due = now s + streamingWait w,
                               callback = Detect, period = None\<rparr>],
       nextHandle := nextHandle s + 1, streamingTimeout := Some (nextHandle s)\<rparr>"
  by (simp add: streamingRecheck_def callIsStreaming_def setTimeout_def)

lemma runDetect_sel [simp]:
  "passes (runDetect w s) = passes s @ [now s]" "timers (runDetect w s) = timers s"
  "now (runDetect w s) = now s"
  by (simp_all add: runDetect_def)

text \<open>
  C5, as amended. When the sequence is empty, no other timer is pending and
  \<^verbatim>\<open>isStreaming()\<close> answers yes as the debounce timer fires, no pass runs then and one
  re-check is scheduled a streaming-wait later. If the re-check answers no, exactly one
  pass runs at the re-check and nothing remains pending. If it answers yes, no pass runs
  at the re-check and one detection is scheduled a further streaming-wait later; it
  runs exactly one pass then, without asking \<^verbatim>\<open>isStreaming()\<close> again, and nothing remains
  pending.
\<close>

theorem C5_streaming_check_amended:
  assumes "isStreamingAt w = Some f" and "messages (engine s) = []" and "timers s = []"
    and "f (now s)"
  shows "passes (debouncedCallback w s) = passes s \<and>
     pending (debouncedCallback w s) = [(now s + streamingWait w, StreamingRecheck)] \<and>
     (\<not> f (now s + streamingWait w) \<longrightarrow>
        (\<exists>s2. fireNext w (debouncedCallback w s) = Some s2 \<and>
              passes s2 = passes s @ [now s + streamingWait w] \<and> pending s2 = [])) \<and>
     (f (now s + streamingWait w) \<longrightarrow>
        (\<exists>s2. fireNext w (debouncedCallback w s) = Some s2 \<and>
              passes s2 = passes s \<and>
              pending s2 = [(now s + 2 * streamingWait w, Detect)] \<and>
              (\<exists>s3. fireNext w s2 = Some s3 \<and>
                    passes s3 = passes s @ [now s + 2 * streamingWait w] \<and> pending s3 = [])))"
proof -
  let ?W = "streamingWait w"
  let ?s1 = "debouncedCallback w s"
  let ?t1 = "\<lparr>handle = nextHandle s, due = now s + ?W, callback = StreamingRecheck, period = None\<rparr>"
  have s1: "?s1 = s\<lparr>timers := timers s @ [?t1],
       nextHandle := nextHandle s + 1, streamingTimeout := Some (nextHandle s)\<rparr>"
    using assms(1,2,4) by (rule debounced_streaming)
  have t1: "timers ?s1 = [?t1]" and n1: "now ?s1 = now s" and p1: "passes ?s1 = passes s"
    by (simp_all add: s1 assms(3))
  have b: "pending ?s1 = [(now s + ?W, StreamingRecheck)]" by (simp add: pending_def t1)
  let ?s1' = "?s1\<lparr>now := max (now ?s1) (due ?t1), timers := []\<rparr>"
  have f1: "fireNext w ?s1 = Some (streamingRecheck w ?s1')"
    using fireNext_single [OF t1, of w] by (simp add: runCallback_def)
  have n1': "now ?s1' = now s + ?W" and p1': "passes ?s1' = passes s" and t1': "timers ?s1' = []"
    by (simp_all add: n1 p1)
  have c: "\<exists>s2. fireNext w ?s1 = Some s2 \<and> passes s2 = passes s @ [now s + ?W] \<and> pending s2 = []"
    if nf: "\<not> f (now s + ?W)"
  proof -
    from nf n1' have "\<not> f (now ?s1')" by simp
    with assms(1) have "streamingRecheck w ?s1' = runDetect w ?s1'" by (rule recheck_not_streaming)
    with f1 have "fireNext w ?s1 = Some (runDetect w ?s1')" by simp
    moreover have "passes (runDetect w ?s1') = passes s @ [now s + ?W]"
      using n1' p1' by simp
    moreover have "pending (runDetect w ?s1') = []" using t1' by (simp add: pending_def)
    ultimately show ?thesis by blast
  qed
  have d: "\<exists>s2. fireNext w ?s1 = Some s2 \<and> passes s2 = passes s \<and>
              pending s2 = [(now s + 2 * ?W, Detect)] \<and>
              (\<exists>s3. fireNext w s2 = Some s3 \<and>
                    passes s3 = passes s @ [now s + 2 * ?W] \<and> pending s3 = [])"
    if st: "f (now s + ?W)"
  proof -
    let ?t2 = "\<lparr>handle = nextHandle ?s1', due = now ?s1' + ?W, callback = Detect, period = None\<rparr>"
    let ?s2 = "?s1'\<lparr>timers := timers ?s1' @ [?t2],
       nextHandle := nextHandle ?s1' + 1, streamingTimeout := Some (nextHandle ?s1')\<rparr>"
    from st n1' have "f (now ?s1')" by simp
    with assms(1) have s2: "streamingRecheck w ?s1' = ?s2" by (rule recheck_streaming)
    have t2: "timers ?s2 = [?t2]" and n2: "now ?s2 = now s + ?W" and p2: "passes ?s2 = passes s"
      using n1' p1' t1' by simp_all
    have pend2: "pending ?s2 = [(now s + 2 * ?W, Detect)]"
      using n1' by (simp add: pending_def t2)
    let ?s2' = "?s2\<lparr>now := max (now ?s2) (due ?t2), timers := []\<rparr>"
    have f2: "fireNext w ?s2 = Some (runDetect w ?s2')"
      using fireNext_single [OF t2, of w] by (simp add: runCallback_def)
    have "now ?s2' = now s + 2 * ?W" using n1' by simp
    moreover have "passes ?s2' = passes s" using p1' by simp
    ultimately have p3: "passes (runDetect w ?s2') = passes s @ [now s + 2 * ?W]" by simp
    have t3: "pending (runDetect w ?s2') = []" by (simp add: pending_def)
    from f2 p3 t3 have "\<exists>s3. fireNext w ?s2 = Some s3 \<and>
                    passes s3 = passes s @ [now s + 2 * ?W] \<and> pending s3 = []" by blast
    with f1 s2 p2 pend2 show ?thesis by (metis (no_types, lifting))
  qed
  from p1 b c d show ?thesis by blast
qed

text \<open>
  The amended statement in the streaming world, the debounce timer firing at time 800:
  the forced pass runs at time 4800.
\<close>

theorem C5_streaming_check_amended_witness:
  "(\<exists>s2 s3. fireNext streamingWorld (debouncedCallback streamingWorld (watching\<lparr>now := 800\<rparr>)) = Some s2 \<and>
      passes s2 = [] \<and> pending s2 = [(4800, Detect)] \<and>
      fireNext streamingWorld s2 = Some s3 \<and> passes s3 = [4800] \<and> pending s3 = [])"
proof -
  have h1: "isStreamingAt streamingWorld = Some (\<lambda>t. t < 6000)"
    by (simp add: streamingWorld_def)
  have h2: "messages (engine (watching\<lparr>now := 800\<rparr>)) = []" by (simp add: watching_def)
  have h3: "timers (watching\<lparr>now := 800\<rparr>) = []" by (simp add: watching_def)
  have h4: "(\<lambda>t. t < 6000) (now (watching\<lparr>now := 800\<rparr>))" by simp
  have w: "streamingWait streamingWorld = 2000"
    by (simp add: streamingWait_def streamingWorld_def kimiWorld_def)
  have p: "passes (watching\<lparr>now := 800\<rparr>) = []" by (simp add: watching_def)
  from C5_streaming_check_amended [OF h1 h2 h3 h4] w p show ?thesis
    by auto
qed

text \<open>
  C5 as stated fails. The sequence is empty and \<^verbatim>\<open>isStreaming()\<close> answers yes until time
  6000, in particular at the times 800, 2800 and 4800 of three consecutive checks one
  streaming-wait apart. The code asks at 800 and 2800 only, and runs its pass at 4800,
  inside the streaming period; no timer is left, so no pass runs at or after the end of
  streaming.
\<close>

theorem C5_streaming_check_counterexample:
  "messages (engine watching) = [] \<and>
   isStreamingAt streamingWorld = Some (\<lambda>t. t < 6000) \<and>
   summary (run streamingWorld [Mutate 0 False, Fire] watching) =
     Some (800, [], [], [(2800, StreamingRecheck)], False) \<and>
   summary (run streamingWorld [Mutate 0 False, Fire, Fire] watching) =
     Some (2800, [], [], [(4800, Detect)], False) \<and>
   summary (run streamingWorld [Mutate 0 False, Fire, Fire, Fire] watching) =
     Some (4800, [1], [4800], [], False) \<and>
   (4800::nat) < 6000 \<and>
   run streamingWorld [Mutate 0 False, Fire, Fire, Fire, Fire] watching = None"
proof -
  have 1: "messages (engine watching) = []" by (simp add: watching_def)
  have 2: "isStreamingAt streamingWorld = Some (\<lambda>t. t < 6000)"
    by (simp add: streamingWorld_def)
  have 3: "summary (run streamingWorld [Mutate 0 False, Fire] watching) =
     Some (800, [], [], [(2800, StreamingRecheck)], False)" by code_simp
  have 4: "summary (run streamingWorld [Mutate 0 False, Fire, Fire] watching) =
     Some (2800, [], [], [(4800, Detect)], False)" by code_simp
  have 5: "summary (run streamingWorld [Mutate 0 False, Fire, Fire, Fire] watching) =
     Some (4800, [1], [4800], [], False)" by code_simp
  have 6: "summary (run streamingWorld [Mutate 0 False, Fire, Fire, Fire, Fire] watching) = None"
    by code_simp
  then have 7: "run streamingWorld [Mutate 0 False, Fire, Fire, Fire, Fire] watching = None"
    by (simp add: summary_def)
  from 1 2 3 4 5 7 show ?thesis by simp
qed

text \<open>
  C6 fails on the code. The debounced pass at time 800 finds a message and schedules the
  confirmatory re-scan for time 2800, kept in \<^verbatim>\<open>streamingTimeout\<close>. The address changes and
  \<^verbatim>\<open>checkUrlChange\<close> runs at time 1900: it empties the sequence, disconnects the observer
  and clears \<^verbatim>\<open>observerTimeout\<close>, but the re-scan stays pending. It fires at time 2800,
  before the pass of the new context due at 2900, and puts the old conversation's message
  into the emptied sequence; the pass of the new context then adds its own.
\<close>

theorem C6_stale_timer_after_teardown:
  "summary (run kimiWorld [Mutate 0 False, Fire] watching) =
     Some (800, [1], [800], [(2800, Detect)], False) \<and>
   summary (run kimiWorld [Mutate 0 False, Fire, Navigate 1900] watching) =
     Some (1900, [], [800], [(2800, Detect), (2900, ResetDone)], True) \<and>
   summary (run kimiWorld [Mutate 0 False, Fire, Navigate 1900, Fire] watching) =
     Some (2800, [1], [800, 2800], [(2900, ResetDone)], True) \<and>
   summary (run kimiWorld [Mutate 0 False, Fire, Navigate 1900, Fire, Fire] watching) =
     Some (2900, [1, 2], [800, 2800, 2900], [], False)"
  by code_simp

section \<open>Properties of the scroll engine\<close>

declare smoothScrollToTarget.simps [simp del]



lemma requery_identifiers:
  assumes "\<not> (platform = Some ''Kimi'' \<and> normalizedContent msg \<noteq> [])" "\<not> breaksSelector p i"
  shows "requery p platform msg i =
     Inr (case originalIdLookup p msg of
            Some n \<Rightarrow> Some n
          | None \<Rightarrow> (case queryDataId p i of Some n \<Rightarrow> Some n | None \<Rightarrow> queryIdContains p i))"
  using assms by (auto simp: requery_def querySelector_def split: option.splits)


lemma ensure_stale:
  assumes "storedElement p (h a) = None" "requery p platform (h a) i = Inr target"
  shows "ensureMessageElement p platform h a i =
     Inr (target, case target of
                    None \<Rightarrow> h
                  | Some c \<Rightarrow> h(a := (h a)\<lparr>element := Some c\<rparr>))"
  using assms by (simp add: ensureMessageElement_def split: option.splits)


lemma highlightSidebar_effects:
  "filter isHostEffect (fst (snd (highlightSidebarMessage p i ui))) = []"
  by (auto simp: highlightSidebarMessage_def isHostEffect_def Let_def
      split: option.splits sum.splits)

lemma highlightSidebar_returns:
  "\<not> breaksSelector p i \<Longrightarrow> snd (snd (highlightSidebarMessage p i ui)) = None"
  by (auto simp: highlightSidebarMessage_def querySelector_def Let_def split: option.splits)

lemma press_effects:
  "filter isHostEffect (case c of Some n \<Rightarrow> [PressCard n] | None \<Rightarrow> []) = []"
  by (simp add: isHostEffect_def split: option.splits)

lemma scrollToMessage_resolved:
  assumes f: "find (\<lambda>a. msg_id (heap st a) = i) (messages st) = Some a"
      and b: "\<not> breaksSelector p i"
      and e: "ensureMessageElement p platform (heap st) a i = Inr (target, h')"
  shows "scrollToMessage p platform i (st, ui) =
     ((st\<lparr>heap := h'\<rparr>, fst (highlightSidebarMessage p i ui)),
      (case sidebarCard p i of Some n \<Rightarrow> [PressCard n] | None \<Rightarrow> []) @
      fst (snd (highlightSidebarMessage p i ui)) @
      (case target of
         None \<Rightarrow> []
       | Some t \<Rightarrow> if isConnected p t then [ScrollTo t, HighlightMessage t] else []),
      None)"
proof -
  obtain ui' active err where hl: "highlightSidebarMessage p i ui = (ui', active, err)"
    by (cases "highlightSidebarMessage p i ui") auto
  with highlightSidebar_returns [OF b, of ui] have err: "err = None" by simp
  show ?thesis
    by (cases target) (simp_all add: scrollToMessage_def f querySelector_def b hl err e)
qed

text \<open>
  The first query of \<^verbatim>\<open>scrollToMessage\<close> throws for an id that breaks the selector,
  before anything is changed.
\<close>

lemma scrollToMessage_throws:
  assumes "find (\<lambda>a. msg_id (heap st a) = i) (messages st) = Some a" "breaksSelector p i"
  shows "scrollToMessage p platform i (st, ui) = ((st, ui), [], Some SyntaxError)"
  using assms by (simp add: scrollToMessage_def querySelector_def)

text \<open>
  Outside Kimi, a message whose stored element is detached, that has no \<^verbatim>\<open>originalId\<close>
  in the document and whose id no element of the host page carries as \<^verbatim>\<open>data-id\<close>,
  resolves to its own card in the sidebar: the card is stored as the element of the
  message, scrolled to and highlighted.
\<close>

lemma stale_element_resolves_to_card:
  assumes f: "find (\<lambda>a. msg_id (heap st a) = i) (messages st) = Some a"
      and b: "\<not> breaksSelector p i"
      and s: "storedElement p (heap st a) = None"
      and k: "\<not> (platform = Some ''Kimi'' \<and> normalizedContent (heap st a) \<noteq> [])"
      and o: "originalIdLookup p (heap st a) = None"
      and h: "hostDataId p i = None"
      and c: "sidebarCard p i = Some messageCard" "isConnected p messageCard"
  shows "filter isHostEffect (fst (snd (scrollToMessage p platform i (st, ui)))) =
           [ScrollTo messageCard, HighlightMessage messageCard]"
    and "element (heap (fst (fst (scrollToMessage p platform i (st, ui)))) a) = Some messageCard"
proof -
  have "requery p platform (heap st a) i = Inr (Some messageCard)"
    using requery_identifiers [OF k b] o h c(1) by (simp add: queryDataId_def)
  with s have e: "ensureMessageElement p platform (heap st) a i =
      Inr (Some messageCard, (heap st)(a := (heap st a)\<lparr>element := Some messageCard\<rparr>))"
    using ensure_stale [where h = "heap st" and a = a and p = p and target = "Some messageCard"]
    by simp
  note r = scrollToMessage_resolved [OF f b e, of ui]
  show "filter isHostEffect (fst (snd (scrollToMessage p platform i (st, ui)))) =
           [ScrollTo messageCard, HighlightMessage messageCard]"
    using c(2) by (simp add: r press_effects highlightSidebar_effects isHostEffect_def)
  show "element (heap (fst (fst (scrollToMessage p platform i (st, ui)))) a) = Some messageCard"
    by (simp add: r)
qed




lemma easeOutQuart_bounds:
  assumes "0 \<le> t" "t \<le> 1"
  shows "t \<le> easeOutQuart t" and "easeOutQuart t \<le> 1"
proof -
  have a: "0 \<le> 1 - t" "1 - t \<le> 1" using assms by simp_all
  have "(1 - t) ^ 4 \<le> (1 - t) ^ 1"
    using a by (intro power_decreasing) simp_all
  then show "t \<le> easeOutQuart t" by (simp add: easeOutQuart_def)
  have "0 \<le> (1 - t) ^ 4" using a by simp
  then show "easeOutQuart t \<le> 1" by (simp add: easeOutQuart_def)
qed

lemma easeOutQuart_mono:
  assumes "0 \<le> s" "s \<le> t" "t \<le> 1"
  shows "easeOutQuart s \<le> easeOutQuart t"
proof -
  have "(1 - t) ^ 4 \<le> (1 - s) ^ 4"
    using assms by (intro power_mono) simp_all
  then show ?thesis by (simp add: easeOutQuart_def)
qed

lemma scrollDuration_first:
  assumes "0 \<le> absDelta"
  shows "scrollDuration 0 absDelta = 320 + min (absDelta * 0.4) 580"
    and "320 \<le> scrollDuration 0 absDelta" and "scrollDuration 0 absDelta \<le> 900"
  using assms by (simp_all add: scrollDuration_def Let_def min_def)

lemma smoothScroll_2:
  "smoothScrollToTarget L 2 =
     (if \<bar>delta (L 2)\<bar> < 1 then [] else [300])"
  by (subst smoothScrollToTarget.simps) (simp add: Let_def scrollDuration_def)

lemma smoothScroll_1:
  "smoothScrollToTarget L (Suc 0) =
     (if \<bar>delta (L (Suc 0))\<bar> < 1 then []
      else 300 # (if isTargetCentered (L (Suc 0)) then [] else smoothScrollToTarget L 2))"
  by (subst smoothScrollToTarget.simps) (simp add: Let_def scrollDuration_def numeral_2_eq_2)

lemma smoothScroll_0:
  "smoothScrollToTarget L 0 =
     (if \<bar>delta (L 0)\<bar> < 1 then []
      else (320 + min (\<bar>delta (L 0)\<bar> * 0.4) 580) #
           (if isTargetCentered (L 0) then [] else smoothScrollToTarget L (Suc 0)))"
  by (subst smoothScrollToTarget.simps) (simp add: Let_def scrollDuration_def)

lemma animate_finished:
  "animate start dlt duration frames = (positions, True) \<Longrightarrow>
   positions \<noteq> [] \<and> last positions = start + dlt"
proof (induction frames arbitrary: positions)
  case Nil
  then show ?case by simp
next
  case (Cons elapsed rest)
  show ?case
  proof (cases "elapsed / duration < 1")
    case True
    obtain ps fin where r: "animate start dlt duration rest = (ps, fin)"
      by (cases "animate start dlt duration rest")
    from Cons.prems True r have fin: "fin = True"
      and p: "positions = framePosition start dlt duration elapsed # ps" by simp_all
    from Cons.IH [of ps] r fin have "ps \<noteq> [] \<and> last ps = start + dlt" by simp
    with p show ?thesis by simp
  next
    case False
    then have "min 1 (elapsed / duration) = 1" by (simp add: min_def)
    with False Cons.prems show ?thesis
      by (auto simp: framePosition_def easeOutQuart_def)
  qed
qed

text \<open>
  C9, as amended. The easing curve is \<open>1 - (1 - t)\<^sup>4\<close>: it is 0 at 0 and 1 at 1, increasing
  and above the identity on the unit interval, and an animation that reaches progress 1
  ends at the desired position. The duration of the first animation is 320 ms plus 0.4
  ms per pixel of distance, the extra capped at 580 ms; every later animation lasts 300
  ms. After an animation the scroll is retried if the target is not within 90 pixels of
  the vertical centre of the window and the remaining distance is at least one pixel;
  there are at most two retries, so at most three animations.
\<close>

theorem C9_scroll_animation_amended:
  "(0 \<le> t \<and> t \<le> 1 \<longrightarrow>
      easeOutQuart t = 1 - (1 - t) ^ 4 \<and> t \<le> easeOutQuart t \<and> easeOutQuart t \<le> 1) \<and>
   easeOutQuart 0 = 0 \<and> easeOutQuart 1 = 1 \<and>
   (0 \<le> s \<and> s \<le> t \<and> t \<le> 1 \<longrightarrow> easeOutQuart s \<le> easeOutQuart t) \<and>
   (animate start dlt duration frames = (positions, True) \<longrightarrow>
      positions \<noteq> [] \<and> last positions = start + dlt) \<and>
   (0 \<le> absDelta \<longrightarrow>
      scrollDuration 0 absDelta = 320 + min (absDelta * 0.4) 580 \<and>
      320 \<le> scrollDuration 0 absDelta \<and> scrollDuration 0 absDelta \<le> 900) \<and>
   (0 < attempt \<longrightarrow> scrollDuration attempt absDelta = 300) \<and>
   smoothScrollToTarget L 0 =
     (if \<bar>delta (L 0)\<bar> < 1 then []
      else scrollDuration 0 \<bar>delta (L 0)\<bar> #
           (if isTargetCentered (L 0) \<or> \<bar>delta (L 1)\<bar> < 1 then []
            else 300 #
                 (if isTargetCentered (L 1) \<or> \<bar>delta (L 2)\<bar> < 1 then [] else [300]))) \<and>
   length (smoothScrollToTarget L 0) \<le> 3"
proof -
  have e: "smoothScrollToTarget L 0 =
     (if \<bar>delta (L 0)\<bar> < 1 then []
      else scrollDuration 0 \<bar>delta (L 0)\<bar> #
           (if isTargetCentered (L 0) \<or> \<bar>delta (L 1)\<bar> < 1 then []
            else 300 #
                 (if isTargetCentered (L 1) \<or> \<bar>delta (L 2)\<bar> < 1 then [] else [300])))"
    by (simp add: smoothScroll_0 smoothScroll_1 smoothScroll_2 scrollDuration_def Let_def)
  have l: "length (smoothScrollToTarget L 0) \<le> 3" by (simp add: e)
  have ends: "easeOutQuart 0 = 0" "easeOutQuart 1 = 1" by (simp_all add: easeOutQuart_def)
  have later: "0 < attempt \<longrightarrow> scrollDuration attempt absDelta = 300"
    by (simp add: scrollDuration_def Let_def)
  from e l ends later easeOutQuart_bounds [of t] easeOutQuart_mono [of s t]
    scrollDuration_first [of absDelta] animate_finished [of start dlt duration frames positions]
  show ?thesis by (simp add: easeOutQuart_def)
qed

text \<open>
  The amended statement at a distance of 1000 pixels and on the layout that keeps
  shifting.
\<close>

theorem C9_scroll_animation_amended_witness:
  "easeOutQuart (1 / 2) = 15 / 16 \<and> scrollDuration 0 1000 = 720 \<and> scrollDuration 0 5000 = 900 \<and>
   scrollDuration 1 1000 = 300 \<and>
   animate 0 1000 720 [360, 720] = ([937.5, 1000], True) \<and>
   smoothScrollToTarget shiftingLayout 0 = [720, 300, 300]"
proof -
  note T = C9_scroll_animation_amended [of "1 / 2" "1 / 4" 0 1000 720 "[360, 720]" "[937.5, 1000]"
      1000 1 shiftingLayout]
  have a: "animate 0 1000 720 [360, 720] = ([937.5, 1000], True)"
    by (simp add: framePosition_def easeOutQuart_def power4_eq_xxxx)
  have c: "\<not> isTargetCentered (shiftingLayout 0)" "\<not> isTargetCentered (shiftingLayout 1)"
    "\<bar>delta (shiftingLayout 0)\<bar> = 1000" "\<bar>delta (shiftingLayout 1)\<bar> = 1000"
    "\<bar>delta (shiftingLayout 2)\<bar> = 1000"
    by (simp_all add: isTargetCentered_def shiftingLayout_def)
  have d: "scrollDuration 0 5000 = 900" by (simp add: scrollDuration_def Let_def)
  from T a c d show ?thesis by (simp add: power4_eq_xxxx)
qed

text \<open>
  C9 as stated fails: on the layout that keeps shifting the first animation is followed
  by two retries, not one.
\<close>

theorem C9_scroll_animation_counterexample:
  "smoothScrollToTarget shiftingLayout 0 = [720, 300, 300] \<and>
   length (smoothScrollToTarget shiftingLayout 0) = 3"
  by (simp add: smoothScroll_0 smoothScroll_1 smoothScroll_2 isTargetCentered_def
      shiftingLayout_def)

section \<open>Favorites: toggling\<close>

text \<open>
  For an id whose selector is well-formed the toggle returns: it adds an id that is
  not a favorite, removes every occurrence of one that is, leaves the membership of
  every other id as it was, and two toggles of the same id give back the original set.
\<close>

lemma toggleFavorite_involution:
  assumes "\<not> breaksSelector p i"
  shows "\<exists>fs effs. toggleFavorite p i favorites = Inr (fs, effs) \<and>
     (i \<notin> set favorites \<longrightarrow> set fs = insert i (set favorites)) \<and>
     (i \<in> set favorites \<longrightarrow> set fs = set favorites - {i}) \<and>
     (j \<noteq> i \<longrightarrow> (j \<in> set fs \<longleftrightarrow> j \<in> set favorites)) \<and>
     (\<exists>fs' effs'. toggleFavorite p i fs = Inr (fs', effs') \<and> set fs' = set favorites)"
  using assms by (auto simp: toggleFavorite_def querySelector_def)

lemma toggleFavorite_breaks:
  assumes "breaksSelector p i"
  shows "toggleFavorite p i favorites = Inl SyntaxError"
    and "favoritesAfter p i favorites = favorites"
  using assms by (simp_all add: favoritesAfter_def toggleFavorite_def querySelector_def)

text \<open>
  C10 fails on the code for the id \<^verbatim>\<open>msg-kimi-user-0-say"hi"\<close>, which the sidebar hands to
  the click handler of the favorite button for a message whose text is
  \<^verbatim>\<open>say&quot;hi&quot;\<close>. The selector \<^verbatim>\<open>.hopper-favorite[data-id="msg-kimi-user-0-say"hi""]\<close> is
  not well-formed; the query, the first statement of \<^verbatim>\<open>toggleFavorite\<close>, throws, and the
  id is not added to the favorites: the list is as it was, whether it held the id or
  not. For the id \<^verbatim>\<open>msg-kimi-user-0-hi\<close> on the same page the toggle adds the id.
\<close>

theorem C10_toggleFavorite_throws:
  "quotedId = ''msg-kimi-user-0-say'' @ [CHR 0x22] @ ''hi'' @ [CHR 0x22] \<and>
   breaksSelector rerenderedPage quotedId \<and>
   toggleFavorite rerenderedPage quotedId [] = Inl SyntaxError \<and>
   quotedId \<notin> set (favoritesAfter rerenderedPage quotedId []) \<and>
   toggleFavorite rerenderedPage quotedId [quotedId] = Inl SyntaxError \<and>
   quotedId \<in> set (favoritesAfter rerenderedPage quotedId [quotedId]) \<and>
   toggleFavorite rerenderedPage ''msg-kimi-user-0-hi'' [] =
     Inr ([''msg-kimi-user-0-hi''], [PressFavorite 92])"
  by code_simp

end
